theory Spec2Isabelle
  imports Complex_Main "HOL-Library.Multiset"
begin

section \<open>JavaScript numbers\<close>

text \<open>
  A JavaScript \<open>number\<close> is an IEEE 754 binary64 value. It is modelled by its four kinds
  of value: \<open>NaN\<close>, the two infinities, and the finite values, carried by the real number
  they denote. Arithmetic follows IEEE 754: on the special values by cases, and on finite
  operands by rounding the exact result to 53 significant bits, to the nearest value and
  to the even one on a tie (\<open>round64\<close>); a result that rounds beyond the largest finite
  binary64 number becomes an infinity (\<open>fl\<close>). Two things are idealised. There is one
  zero, treated as \<open>+0\<close>. And the exponent is not bounded from below: a result smaller
  than \<open>2^-1022\<close> in magnitude keeps its 53 bits, where binary64 loses precision gradually
  and flushes to zero below \<open>2^-1075\<close>.
\<close>

datatype jsnum = NaN | PInf | NInf | Fin real

text \<open>The number of binary digits of a natural number.\<close>

function bitLength :: "nat \<Rightarrow> nat" where
  "bitLength k = (if k = 0 then 0 else Suc (bitLength (k div 2)))"
  by pat_completeness auto
termination
  by (relation "measure id") auto

declare bitLength.simps [simp del]

definition scale2 :: "real \<Rightarrow> int \<Rightarrow> real" where
  "scale2 m e = (if 0 \<le> e then m * 2 ^ nat e else m / 2 ^ nat (- e))"

text \<open>
  The binary exponent of a positive number \<open>a\<close>, the \<open>e\<close> with \<open>2^e \<le> a < 2^(e+1)\<close>: from
  the number of bits of the integer part when \<open>a \<ge> 1\<close>, and of the integer part of \<open>1/a\<close>
  otherwise.
\<close>

definition binExponent :: "real \<Rightarrow> int" where
  "binExponent a =
     (if 1 \<le> a then int (bitLength (nat \<lfloor>a\<rfloor>)) - 1
      else
        (let d = bitLength (nat \<lfloor>1 / a\<rfloor>)
         in if a * 2 ^ (d - 1) = 1 then 1 - int d else - int d))"

text \<open>The nearest integer, the even one of the two on a tie.\<close>

definition roundEven :: "real \<Rightarrow> int" where
  "roundEven y =
     (let f = \<lfloor>y\<rfloor>; d = y - real_of_int f
      in if d < 1 / 2 then f
         else if 1 / 2 < d then f + 1
         else if even f then f else f + 1)"

text \<open>
  Rounding to 53 significant bits: a number of binary exponent \<open>e\<close> is rounded to the
  nearest multiple of \<open>2^(e-52)\<close>.
\<close>

definition round64 :: "real \<Rightarrow> real" where
  "round64 x =
     (if x = 0 then 0
      else
        (let e = binExponent \<bar>x\<bar>;
             r = scale2 (real_of_int (roundEven (scale2 \<bar>x\<bar> (52 - e)))) (e - 52)
         in if x < 0 then - r else r))"

text \<open>
  The result of an operation whose exact value is \<open>x\<close>. The largest finite binary64 number
  is \<open>2^1024 - 2^971\<close>; an exact value of at least \<open>2^1024 - 2^970\<close>, half a unit in the
  last place above it, rounds to infinity.
\<close>

definition overflow_bound :: real where
  "overflow_bound = 2 ^ 1024 - 2 ^ 970"

definition fl :: "real \<Rightarrow> jsnum" where
  "fl x = (if overflow_bound \<le> x then PInf
           else if x \<le> - overflow_bound then NInf
           else Fin (round64 x))"

fun isNaN :: "jsnum \<Rightarrow> bool" where
  "isNaN NaN = True"
| "isNaN _ = False"

fun isFinite :: "jsnum \<Rightarrow> bool" where
  "isFinite (Fin _) = True"
| "isFinite _ = False"

text \<open>The relational operators \<open><\<close> and \<open><=\<close>; a comparison with \<open>NaN\<close> is false.\<close>

fun jlt :: "jsnum \<Rightarrow> jsnum \<Rightarrow> bool" where
  "jlt NaN _ = False"
| "jlt _ NaN = False"
| "jlt PInf _ = False"
| "jlt _ NInf = False"
| "jlt NInf _ = True"
| "jlt (Fin a) PInf = True"
| "jlt (Fin a) (Fin b) = (a < b)"

fun jle :: "jsnum \<Rightarrow> jsnum \<Rightarrow> bool" where
  "jle NaN _ = False"
| "jle _ NaN = False"
| "jle NInf _ = True"
| "jle _ PInf = True"
| "jle PInf _ = False"
| "jle (Fin a) NInf = False"
| "jle (Fin a) (Fin b) = (a \<le> b)"

definition jgt :: "jsnum \<Rightarrow> jsnum \<Rightarrow> bool" where
  "jgt a b = jlt b a"

definition jge :: "jsnum \<Rightarrow> jsnum \<Rightarrow> bool" where
  "jge a b = jle b a"

text \<open>The sign of a non-\<open>NaN\<close> value as the infinities see it: zero counts as \<open>+0\<close>.\<close>

fun is_neg :: "jsnum \<Rightarrow> bool" where
  "is_neg NInf = True"
| "is_neg (Fin a) = (a < 0)"
| "is_neg _ = False"

definition signed_inf :: "bool \<Rightarrow> jsnum" where
  "signed_inf neg = (if neg then NInf else PInf)"

fun jmul :: "jsnum \<Rightarrow> jsnum \<Rightarrow> jsnum" where
  "jmul NaN _ = NaN"
| "jmul _ NaN = NaN"
| "jmul (Fin a) (Fin b) = fl (a * b)"
| "jmul (Fin a) y = (if a = 0 then NaN else signed_inf (is_neg (Fin a) \<noteq> is_neg y))"
| "jmul x (Fin b) = (if b = 0 then NaN else signed_inf (is_neg x \<noteq> is_neg (Fin b)))"
| "jmul x y = signed_inf (is_neg x \<noteq> is_neg y)"

fun jdiv :: "jsnum \<Rightarrow> jsnum \<Rightarrow> jsnum" where
  "jdiv NaN _ = NaN"
| "jdiv _ NaN = NaN"
| "jdiv (Fin a) (Fin b) =
     (if b = 0 then (if a = 0 then NaN else signed_inf (a < 0)) else fl (a / b))"
| "jdiv (Fin a) y = Fin 0"
| "jdiv x (Fin b) = signed_inf (is_neg x \<noteq> is_neg (Fin b))"
| "jdiv x y = NaN"

fun jsub :: "jsnum \<Rightarrow> jsnum \<Rightarrow> jsnum" where
  "jsub NaN _ = NaN"
| "jsub _ NaN = NaN"
| "jsub (Fin a) (Fin b) = fl (a - b)"
| "jsub (Fin a) PInf = NInf"
| "jsub (Fin a) NInf = PInf"
| "jsub PInf PInf = NaN"
| "jsub NInf NInf = NaN"
| "jsub PInf _ = PInf"
| "jsub NInf _ = NInf"

section \<open>Strings\<close>

text \<open>
  A string is the list of its characters. The model is exact for ASCII text, which is what
  the suffix tables, the number syntax and the messages of the program are made of:
  \<open>toLowerCase\<close> maps \<open>A\<close>..\<open>Z\<close> to \<open>a\<close>..\<open>z\<close> and leaves every other character alone,
  and the white space that \<open>trim\<close> and \<open>parseFloat\<close> strip is tab, line feed, vertical
  tab, form feed, carriage return and space.
\<close>

definition isWhiteSpace :: "char \<Rightarrow> bool" where
  "isWhiteSpace c = (c \<in> set [CHR 0x09, CHR 0x0A, CHR 0x0B, CHR 0x0C, CHR 0x0D, CHR 0x20])"

definition trim :: "string \<Rightarrow> string" where
  "trim s = rev (dropWhile isWhiteSpace (rev (dropWhile isWhiteSpace s)))"

definition lowerChar :: "char \<Rightarrow> char" where
  "lowerChar c =
     (case map_of (zip ''ABCDEFGHIJKLMNOPQRSTUVWXYZ'' ''abcdefghijklmnopqrstuvwxyz'') c of
        None \<Rightarrow> c
      | Some d \<Rightarrow> d)"

definition toLowerCase :: "string \<Rightarrow> string" where
  "toLowerCase s = map lowerChar s"

definition includesChar :: "string \<Rightarrow> char \<Rightarrow> bool" where
  "includesChar s c = (c \<in> set s)"

definition endsWith :: "string \<Rightarrow> string \<Rightarrow> bool" where
  "endsWith s t = (length t \<le> length s \<and> drop (length s - length t) s = t)"

text \<open>\<open>s.slice(0, -k)\<close>: the end index \<open>-k\<close> counts from the end, and \<open>-0\<close> is \<open>0\<close>.\<close>

definition slice_to_neg :: "string \<Rightarrow> nat \<Rightarrow> string" where
  "slice_to_neg s k = (if k = 0 then [] else take (length s - k) s)"

text \<open>\<open>xs.join(sep)\<close>\<close>

fun join :: "string list \<Rightarrow> string \<Rightarrow> string" where
  "join [] sep = []"
| "join [x] sep = x"
| "join (x # y # ys) sep = x @ sep @ join (y # ys) sep"

subsection \<open>parseFloat\<close>

text \<open>
  \<open>parseFloat\<close> skips leading white space and reads the longest prefix that is a decimal
  literal: an optional sign, then \<open>Infinity\<close> or digits with an optional fraction, then an
  optional exponent, which counts only when it has a digit. Whatever follows is ignored.
  With no such prefix the result is \<open>NaN\<close>.
\<close>

definition isDigit :: "char \<Rightarrow> bool" where
  "isDigit c = (c \<in> set ''0123456789'')"

definition digitVal :: "char \<Rightarrow> nat" where
  "digitVal c = of_char c - 48"

definition digitsVal :: "string \<Rightarrow> nat" where
  "digitsVal ds = foldl (\<lambda>acc c. 10 * acc + digitVal c) 0 ds"

definition startsWith :: "string \<Rightarrow> string \<Rightarrow> bool" where
  "startsWith s t = (take (length t) s = t)"

text \<open>The value of an exponent part at the head of the rest, \<open>0\<close> when there is none.\<close>

definition exponentPart :: "string \<Rightarrow> int" where
  "exponentPart r =
     (case r of
        [] \<Rightarrow> 0
      | c # r1 \<Rightarrow>
          if c = CHR ''e'' \<or> c = CHR ''E'' then
            (case r1 of
               [] \<Rightarrow> 0
             | d # r2 \<Rightarrow>
                 if d = CHR ''-'' then
                   (if takeWhile isDigit r2 = [] then 0
                    else - int (digitsVal (takeWhile isDigit r2)))
                 else if d = CHR ''+'' then int (digitsVal (takeWhile isDigit r2))
                 else int (digitsVal (takeWhile isDigit r1)))
          else 0)"

definition scale10 :: "real \<Rightarrow> int \<Rightarrow> real" where
  "scale10 m e = (if 0 \<le> e then m * 10 ^ nat e else m / 10 ^ nat (- e))"

definition parseUnsigned :: "bool \<Rightarrow> string \<Rightarrow> jsnum" where
  "parseUnsigned neg r =
     (if startsWith r ''Infinity'' then signed_inf neg
      else
        let ip = takeWhile isDigit r;
            r1 = dropWhile isDigit r;
            fp = (case r1 of [] \<Rightarrow> [] | c # r2 \<Rightarrow>
                    if c = CHR ''.'' then takeWhile isDigit r2 else []);
            r3 = (case r1 of [] \<Rightarrow> [] | c # r2 \<Rightarrow>
                    if c = CHR ''.'' then dropWhile isDigit r2 else r1)
        in if ip = [] \<and> fp = [] then NaN
           else
             let m = real (digitsVal (ip @ fp));
                 v = scale10 m (exponentPart r3 - int (length fp))
             in fl (if neg then - v else v))"

definition parseFloat :: "string \<Rightarrow> jsnum" where
  "parseFloat s =
     (case dropWhile isWhiteSpace s of
        [] \<Rightarrow> NaN
      | c # r \<Rightarrow>
          if c = CHR ''-'' then parseUnsigned True r
          else if c = CHR ''+'' then parseUnsigned False r
          else parseUnsigned False (c # r))"

section \<open>The scale table\<close>

text \<open>
  \<open>Array.prototype.sort\<close> with a comparator is stable, and a comparator result of \<open>NaN\<close>
  counts as \<open>0\<close>. For a comparator that orders the elements consistently the result is
  the one stable ordering, which insertion computes: an element moves behind exactly the
  elements it compares greater than.
\<close>

fun sort_insert :: "('a \<Rightarrow> 'a \<Rightarrow> jsnum) \<Rightarrow> 'a \<Rightarrow> 'a list \<Rightarrow> 'a list" where
  "sort_insert cmp x [] = [x]"
| "sort_insert cmp x (y # ys) =
     (if jgt (cmp x y) (Fin 0) then y # sort_insert cmp x ys else x # y # ys)"

definition array_sort :: "('a \<Rightarrow> 'a \<Rightarrow> jsnum) \<Rightarrow> 'a list \<Rightarrow> 'a list" where
  "array_sort cmp xs = foldr (sort_insert cmp) xs []"

text \<open>
  \<open>Scales = Record<string, number>\<close> is taken as the list \<open>Object.entries\<close> gives, in its
  order. \<open>Record<string, string[]>\<close> is a map and \<open>Set<string>\<close> a set. The map stands for
  the own properties of the object: a suffix whose lower-case form names a property that
  every object inherits (\<open>constructor\<close>, \<open>__proto__\<close>) is outside the model.
\<close>

type_synonym Scales = "(string \<times> jsnum) list"

record ScaleUtils =
  scaleEntries :: "(string \<times> jsnum) list"
  lowerCaseScaleMap :: "string \<rightharpoonup> string list"
  conflictingLowerCaseSuffixes :: "string set"

text \<open>
  \<^verbatim>\<open>
  for (const [suffix] of scaleEntries) {
    const lower = suffix.toLowerCase();
    if (!lowerCaseScaleMap[lower]) { lowerCaseScaleMap[lower] = []; }
    lowerCaseScaleMap[lower].push(suffix);
    if (lowerCaseScaleMap[lower].length > 1) { conflictingLowerCaseSuffixes.add(lower); }
  }
  \<close>
\<close>

fun buildLowerCase ::
  "(string \<times> jsnum) list \<Rightarrow> (string \<rightharpoonup> string list) \<times> string set
     \<Rightarrow> (string \<rightharpoonup> string list) \<times> string set" where
  "buildLowerCase [] (m, c) = (m, c)"
| "buildLowerCase ((suffix, multiplier) # rest) (m, c) =
     (let lower = toLowerCase suffix;
          grp = (case m lower of None \<Rightarrow> [] | Some g \<Rightarrow> g) @ [suffix];
          m' = m(lower \<mapsto> grp);
          c' = (if 1 < length grp then insert lower c else c)
      in buildLowerCase rest (m', c'))"

definition buildScaleUtils :: "Scales \<Rightarrow> ScaleUtils" where
  "buildScaleUtils scales =
     (let scaleEntries = array_sort (\<lambda>(ka, a) (kb, b). jsub b a)
                           (filter (\<lambda>(key, v). key \<noteq> []) scales);
          (lowerCaseScaleMap, conflictingLowerCaseSuffixes) =
             buildLowerCase scaleEntries (Map.empty, {})
      in \<lparr> scaleEntries = ([], Fin 1) # scaleEntries,
           lowerCaseScaleMap = lowerCaseScaleMap,
           conflictingLowerCaseSuffixes = conflictingLowerCaseSuffixes \<rparr>)"

section \<open>The scaled number parser\<close>

record ParseResult =
  "value" :: jsnum
  warning :: "string option"

datatype js_error = TypeError

text \<open>
  The suffix loop of \<open>parseScaled\<close>, with its three variables \<open>numPart\<close>, \<open>suffix\<close> and
  \<open>multiplier\<close> as the result; \<open>break\<close> is the branch that does not recurse.
  \<^verbatim>\<open>
  for (const [scaleSuffix, scaleMultiplier] of su.scaleEntries) {
    if (scaleSuffix && trimmed.toLowerCase().endsWith(scaleSuffix.toLowerCase())) {
      const potentialNumPart = trimmed.slice(0, -scaleSuffix.length);
      const num = parseFloat(potentialNumPart);
      if (!isNaN(num) && isFinite(num)) {
        numPart = potentialNumPart; suffix = scaleSuffix; multiplier = scaleMultiplier;
        break;
      }
    }
  }
  \<close>
\<close>

fun findSuffix :: "string \<Rightarrow> (string \<times> jsnum) list \<Rightarrow> string \<times> string \<times> jsnum" where
  "findSuffix trimmed [] = (trimmed, [], Fin 1)"
| "findSuffix trimmed ((scaleSuffix, scaleMultiplier) # rest) =
     (if scaleSuffix \<noteq> [] \<and> endsWith (toLowerCase trimmed) (toLowerCase scaleSuffix) then
        (let potentialNumPart = slice_to_neg trimmed (length scaleSuffix);
             num = parseFloat potentialNumPart
         in if \<not> isNaN num \<and> isFinite num
            then (potentialNumPart, scaleSuffix, scaleMultiplier)
            else findSuffix trimmed rest)
      else findSuffix trimmed rest)"

definition ambiguousWarning :: "string \<Rightarrow> string list \<Rightarrow> string" where
  "ambiguousWarning suffix alternatives =
     ''Ambiguous suffix '' @ [CHR 0x22] @ suffix @ [CHR 0x22] @ '' - could also mean: ''
       @ join alternatives '', ''"

text \<open>
  Reading \<open>su.lowerCaseScaleMap[lowerSuffix]\<close> for a key the map lacks gives \<open>undefined\<close>,
  and \<open>.filter\<close> on it throws a \<open>TypeError\<close>: the one place where \<open>parseScaled\<close> can raise.
\<close>

definition parseScaled :: "string \<Rightarrow> ScaleUtils \<Rightarrow> js_error + ParseResult" where
  "parseScaled input su =
     (let trimmed = trim input in
      if trimmed = [] then Inr \<lparr> value = Fin 0, warning = Some ''Empty input'' \<rparr>
      else if includesChar trimmed CHR ''e'' \<or> includesChar trimmed CHR ''E'' then
        (let num = parseFloat trimmed in
         if isNaN num \<or> \<not> isFinite num
         then Inr \<lparr> value = Fin 0, warning = Some ''Invalid scientific notation'' \<rparr>
         else Inr \<lparr> value = num, warning = None \<rparr>)
      else
        (let (numPart, suffix, multiplier) = findSuffix trimmed (scaleEntries su) in
         if suffix = [] then
           (let num = parseFloat trimmed in
            if isNaN num \<or> \<not> isFinite num
            then Inr \<lparr> value = Fin 0, warning = Some ''Invalid number format'' \<rparr>
            else Inr \<lparr> value = num, warning = None \<rparr>)
         else
           (let baseNum = parseFloat numPart in
            if isNaN baseNum \<or> \<not> isFinite baseNum
            then Inr \<lparr> value = Fin 0, warning = Some ''Invalid number part before suffix'' \<rparr>
            else
              (let result = jmul baseNum multiplier in
               if \<not> isFinite result
               then Inr \<lparr> value = Fin 0, warning = Some ''Result too large'' \<rparr>
               else
                 (let lowerSuffix = toLowerCase suffix in
                  if lowerSuffix \<in> conflictingLowerCaseSuffixes su then
                    (case lowerCaseScaleMap su lowerSuffix of
                       None \<Rightarrow> Inl TypeError
                     | Some grp \<Rightarrow>
                         (let alternatives = filter (\<lambda>s. s \<noteq> suffix) grp in
                          if 0 < length alternatives
                          then Inr \<lparr> value = result,
                                     warning = Some (ambiguousWarning suffix alternatives) \<rparr>
                          else Inr \<lparr> value = result, warning = None \<rparr>))
                  else Inr \<lparr> value = result, warning = None \<rparr>)))))"

section \<open>The time formula\<close>

text \<open>
  \<^verbatim>\<open>
  export function timeSeconds(rps: number, luck: number, chanceN: number): number {
    if (rps <= 0 || luck <= 0 || chanceN <= 0) { return Infinity; }
    return chanceN / (rps * luck);
  }
  \<close>
\<close>

definition timeSeconds :: "jsnum \<Rightarrow> jsnum \<Rightarrow> jsnum \<Rightarrow> jsnum" where
  "timeSeconds rps luck chanceN =
     (if jle rps (Fin 0) \<or> jle luck (Fin 0) \<or> jle chanceN (Fin 0) then PInf
      else jdiv chanceN (jmul rps luck))"


section \<open>The duration formatter\<close>

text \<open>
  The decimal digits of a natural number: what a template literal prints for an integral
  \<open>number\<close> below \<open>10^21\<close>.
\<close>

definition digitChar :: "nat \<Rightarrow> char" where
  "digitChar d = ''0123456789'' ! d"

function natToString :: "nat \<Rightarrow> string" where
  "natToString k =
     (if k < 10 then [digitChar k] else natToString (k div 10) @ [digitChar (k mod 10)])"
  by pat_completeness auto
termination
  by (relation "measure id") auto

declare natToString.simps [simp del]

text \<open>
  \<^verbatim>\<open>
  const TIME_UNITS = [
    { name: 'year', seconds: 365.25 * 24 * 60 * 60 },
    { name: 'day', seconds: 24 * 60 * 60 },
    { name: 'hour', seconds: 60 * 60 },
    { name: 'minute', seconds: 60 },
    { name: 'second', seconds: 1 }
  ];
  \<close>
\<close>

definition TIME_UNITS :: "(string \<times> real) list" where
  "TIME_UNITS =
     [(''year'', 365.25 * 24 * 60 * 60),
      (''day'', 24 * 60 * 60),
      (''hour'', 60 * 60),
      (''minute'', 60),
      (''second'', 1)]"

text \<open>
  The remainder operator \<open>%\<close> on finite operands: the quotient is truncated. The remainder
  of two binary64 numbers is a binary64 number again, so \<open>%\<close> does not round.
\<close>

definition jsRem :: "real \<Rightarrow> real \<Rightarrow> real" where
  "jsRem a b = a - b * real_of_int (if 0 \<le> a / b then \<lfloor>a / b\<rfloor> else \<lceil>a / b\<rceil>)"

text \<open>
  The loop of \<open>formatTimeHuman\<close> over the units, with \<open>parts\<close> and \<open>remaining\<close> as its
  state. Every number in it is finite: \<open>remaining\<close> starts as the floor of a finite value
  and only shrinks, and the quotient by a unit of at least one second cannot overflow. The
  quotient is rounded to binary64 before \<open>Math.floor\<close> sees it; \<open>count\<close> is an integer
  of at least \<open>1\<close>.
  \<^verbatim>\<open>
  for (const unit of TIME_UNITS) {
    if (remaining >= unit.seconds) {
      const count = Math.floor(remaining / unit.seconds);
      remaining = remaining % unit.seconds;
      const unitName = count === 1 ? unit.name : unit.name + 's';
      parts.push(`${count} ${unitName}`);
      if (parts.length >= 3) { break; }
    }
  }
  \<close>
\<close>

fun timeLoop :: "(string \<times> real) list \<Rightarrow> string list \<Rightarrow> real \<Rightarrow> string list" where
  "timeLoop [] parts remaining = parts"
| "timeLoop ((unitName0, unitSeconds) # units) parts remaining =
     (if unitSeconds \<le> remaining then
        (let count = \<lfloor>round64 (remaining / unitSeconds)\<rfloor>;
             remaining' = jsRem remaining unitSeconds;
             unitName = (if count = 1 then unitName0 else unitName0 @ ''s'');
             parts' = parts @ [natToString (nat count) @ '' '' @ unitName]
         in if 3 \<le> length parts' then parts' else timeLoop units parts' remaining')
      else timeLoop units parts remaining)"

text \<open>
  The string literal that the source returns for an absurdly long time, as its bytes in the
  source file: \<open>C3 A2\<close>, \<open>E2 82 AC\<close>, \<open>C2 A6\<close>, the UTF-8 encoding of the three characters
  U+00E2, U+20AC and U+00A6. (They are what the three bytes of an ellipsis U+2026 look like
  when read as Windows-1252; the test of \<open>formatTimeHuman\<close> expects the same literal.)
\<close>

definition ellipsis :: string where
  "ellipsis = [CHR 0xC3, CHR 0xA2, CHR 0xE2, CHR 0x82, CHR 0xAC, CHR 0xC2, CHR 0xA6]"

text \<open>
  \<^verbatim>\<open>
  if (!isFinite(seconds)) { return 'Never'; }
  if (seconds < 1) { return 'Instant'; }
  if (seconds > 1e15 * 365.25 * 24 * 60 * 60) { return <the literal above>; }
  const parts: string[] = [];
  let remaining = Math.floor(seconds);
  ... the loop ...
  if (parts.length === 0) { return 'Instant'; }
  return parts.join(', ');
  \<close>
  The bound of the guard is the product as JavaScript computes it, from left to right
  and rounded at each step.
\<close>

definition formatTimeHuman :: "jsnum \<Rightarrow> string" where
  "formatTimeHuman seconds =
     (if \<not> isFinite seconds then ''Never''
      else if jlt seconds (Fin 1) then ''Instant''
      else if jgt seconds
                (jmul (jmul (jmul (jmul (Fin (10 ^ 15)) (Fin 365.25)) (Fin 24)) (Fin 60)) (Fin 60))
           then ellipsis
      else
        (case seconds of
           Fin x \<Rightarrow>
             (let parts = timeLoop TIME_UNITS [] (real_of_int \<lfloor>x\<rfloor>)
              in if length parts = 0 then ''Instant'' else join parts '', '')
         | _ \<Rightarrow> ''Never''))"

subsection \<open>The decomposition in the specification's words\<close>

text \<open>
  The whole seconds \<open>k\<close> are split greedily into years of 365.25 days, days, hours, minutes
  and seconds; each unit with a non-zero count is written \<open><count> <unit>\<close>, in the plural
  unless the count is \<open>1\<close>; the first three of these are kept and joined by a comma and a
  space.
\<close>

text \<open>Greedy splitting of a count by a list of unit sizes, largest first.\<close>

fun partsOf :: "(string \<times> nat) list \<Rightarrow> nat \<Rightarrow> (nat \<times> string) list" where
  "partsOf [] r = []"
| "partsOf ((unitName, u) # us) r = (r div u, unitName) # partsOf us (r mod u)"

definition unitCounts :: "nat \<Rightarrow> (nat \<times> string) list" where
  "unitCounts k =
     [(k div 31557600, ''year''),
      (k mod 31557600 div 86400, ''day''),
      (k mod 31557600 mod 86400 div 3600, ''hour''),
      (k mod 31557600 mod 86400 mod 3600 div 60, ''minute''),
      (k mod 31557600 mod 86400 mod 3600 mod 60, ''second'')]"

definition showUnit :: "nat \<times> string \<Rightarrow> string" where
  "showUnit cu = natToString (fst cu) @ '' '' @ (if fst cu = 1 then snd cu else snd cu @ ''s'')"

definition humanUnits :: "nat \<Rightarrow> string" where
  "humanUnits k = join (take 3 (map showUnit (filter (\<lambda>cu. fst cu \<noteq> 0) (unitCounts k)))) '', ''"

section \<open>The rune processor\<close>

datatype Category = Starter | Magical | Space

datatype CapStatus = notCapped | capped | notMaxedYet | unknown

datatype ChanceType = oneInN

datatype BoostMode = multiplierMode

record RuneChance =
  chanceType :: ChanceType
  chanceN :: jsnum
  display :: string

record RuneBoost =
  boostType :: string
  mode :: BoostMode
  cap :: "jsnum option"
  capStatus :: CapStatus
  boostNotes :: "string list option"

record RuneRecord =
  rune_id :: string
  name :: string
  category :: Category
  rarity :: "string option"
  hidden :: bool
  sourceNote :: string
  chance :: RuneChance
  boosts :: "RuneBoost list"

record ProcessedRune = RuneRecord +
  time :: "jsnum option"
  isSpecial :: bool

datatype SortOrder = asc | desc

record ProcessOptions =
  text_opt :: "string option"
  hideInstant :: "bool option"
  sort_opt :: "SortOrder option"

text \<open>\<open>s.includes(t)\<close> for strings: \<open>t\<close> occurs in \<open>s\<close> at some position.\<close>

definition includesStr :: "string \<Rightarrow> string \<Rightarrow> bool" where
  "includesStr s t = list_ex (\<lambda>i. startsWith (drop i s) t) [0 ..< Suc (length s)]"

text \<open>\<open>rune.time ?? Infinity\<close>\<close>

definition timeOrInfinity :: "ProcessedRune \<Rightarrow> jsnum" where
  "timeOrInfinity rune = (case time rune of None \<Rightarrow> PInf | Some t \<Rightarrow> t)"

definition compareTime :: "SortOrder \<Rightarrow> ProcessedRune \<Rightarrow> ProcessedRune \<Rightarrow> jsnum" where
  "compareTime order a b =
     (let timeA = timeOrInfinity a; timeB = timeOrInfinity b
      in if order = asc then jsub timeA timeB else jsub timeB timeA)"

definition processOne :: "jsnum \<Rightarrow> jsnum \<Rightarrow> RuneRecord \<Rightarrow> ProcessedRune" where
  "processOne rps luck rune =
     RuneRecord.extend rune
       (ProcessedRune.fields (Some (timeSeconds rps luck (chanceN (chance rune)))) False)"

definition textFilter :: "ProcessOptions \<Rightarrow> ProcessedRune list \<Rightarrow> ProcessedRune list" where
  "textFilter opts processed =
     (case text_opt opts of
        None \<Rightarrow> processed
      | Some t \<Rightarrow>
          if t = [] then processed
          else filter (\<lambda>rune. includesStr (toLowerCase (name rune)) (toLowerCase t)
                             \<or> includesStr (toLowerCase (sourceNote rune)) (toLowerCase t))
                 processed)"

definition hideInstantFilter :: "ProcessOptions \<Rightarrow> ProcessedRune list \<Rightarrow> ProcessedRune list" where
  "hideInstantFilter opts processed =
     (if hideInstant opts = Some True
      then filter (\<lambda>rune. case time rune of None \<Rightarrow> True | Some t \<Rightarrow> jge t (Fin 1)) processed
      else processed)"

definition processRunes ::
  "RuneRecord list \<Rightarrow> jsnum \<Rightarrow> jsnum \<Rightarrow> ProcessOptions \<Rightarrow> ProcessedRune list" where
  "processRunes runes rps luck opts =
     (let processed = hideInstantFilter opts (textFilter opts (map (processOne rps luck) runes))
      in case sort_opt opts of
           None \<Rightarrow> processed
         | Some order \<Rightarrow> array_sort (compareTime order) processed)"

definition findNextUnderHour :: "ProcessedRune list \<Rightarrow> string option" where
  "findNextUnderHour processed =
     map_option rune_id
       (find (\<lambda>rune. case time rune of None \<Rightarrow> False
                     | Some t \<Rightarrow> jge t (Fin 1) \<and> jlt t (Fin 3600)) processed)"

section \<open>Concrete tables and records\<close>

text \<open>The table and the runes of the test suite.\<close>

definition testScales :: Scales where
  "testScales =
     [([], Fin 1), (''k'', Fin 1000), (''K'', Fin 1000), (''M'', Fin 1000000),
      (''B'', Fin 1000000000), (''T'', Fin 1000000000000)]"

text \<open>
  The table of the README. Its last multiplier is written \<open>1000000000000000000000000\<close>
  there; \<open>10^24\<close> is not a binary64 number, and the table holds the nearest one.
\<close>

definition readmeScales :: Scales where
  "readmeScales =
     [([], Fin 1), (''K'', Fin 1000), (''M'', Fin 1000000), (''B'', Fin 1000000000),
      (''T'', Fin 1000000000000), (''Qd'', Fin 1000000000000000),
      (''Qn'', Fin 1000000000000000000), (''Sx'', Fin 1000000000000000000000),
      (''Sp'', Fin 999999999999999983222784)]"


text \<open>A table with a short and a long suffix that end alike.\<close>

definition overlapScales :: Scales where
  "overlapScales = [([], Fin 1), (''KM'', Fin 1000), (''M'', Fin 1000000)]"

text \<open>A table whose multipliers are near the top of the binary64 range.\<close>

definition hugeScales :: Scales where
  "hugeScales = [([], Fin 1), (''k'', Fin (10 ^ 308)), (''K'', Fin (10 ^ 308))]"

definition testRune :: "string \<Rightarrow> string \<Rightarrow> string \<Rightarrow> jsnum \<Rightarrow> RuneRecord" where
  "testRune i nm note k =
     \<lparr> rune_id = i, name = nm, category = Starter, rarity = None, hidden = False,
       sourceNote = note,
       chance = \<lparr> chanceType = oneInN, chanceN = k, display = [] \<rparr>,
       boosts = [] \<rparr>"

definition testRunes :: "RuneRecord list" where
  "testRunes =
     [testRune ''fast'' ''Fast Rune'' ''Quick to get'' (Fin 10),
      testRune ''slow'' ''Slow Rune'' ''Takes a while'' (Fin 1000000)]"

section \<open>Notions the properties speak of\<close>

text \<open>The first statement of \<open>buildScaleUtils\<close>: the entries with a suffix, sorted.\<close>

definition sortedEntries :: "Scales \<Rightarrow> (string \<times> jsnum) list" where
  "sortedEntries scales =
     array_sort (\<lambda>(ka, a) (kb, b). jsub b a) (filter (\<lambda>(key, v). key \<noteq> []) scales)"


text \<open>
  The test of the suffix loop of \<open>parseScaled\<close>: the suffix is not empty, the text ends
  with it up to case, and what is left in front of it parses as a finite number.
\<close>

definition suffixAccepted :: "string \<Rightarrow> string \<Rightarrow> bool" where
  "suffixAccepted trimmed scaleSuffix =
     (scaleSuffix \<noteq> [] \<and> endsWith (toLowerCase trimmed) (toLowerCase scaleSuffix)
      \<and> isFinite (parseFloat (slice_to_neg trimmed (length scaleSuffix))))"

text \<open>The suffixes of a list of entries that lower-case to a given string, in order.\<close>

definition caseVariants :: "string \<Rightarrow> (string \<times> jsnum) list \<Rightarrow> string list" where
  "caseVariants lower es = filter (\<lambda>s. toLowerCase s = lower) (map fst es)"

definition descending :: "(string \<times> jsnum) list \<Rightarrow> bool" where
  "descending es = sorted_wrt (\<lambda>a b. jge (snd a) (snd b)) es"

definition strictlyDescending :: "(string \<times> jsnum) list \<Rightarrow> bool" where
  "strictlyDescending es = sorted_wrt (\<lambda>a b. jgt (snd a) (snd b)) es"

text \<open>
  A list of processed runes is non-decreasing in time when no entry is followed, anywhere
  later, by one of smaller time (\<open>undefined\<close> counting as \<open>Infinity\<close>); non-increasing is
  the mirror image.
\<close>

definition nonDecreasingTime :: "ProcessedRune list \<Rightarrow> bool" where
  "nonDecreasingTime rs = sorted_wrt (\<lambda>a b. \<not> jlt (timeOrInfinity b) (timeOrInfinity a)) rs"

definition nonIncreasingTime :: "ProcessedRune list \<Rightarrow> bool" where
  "nonIncreasingTime rs = sorted_wrt (\<lambda>a b. \<not> jlt (timeOrInfinity a) (timeOrInfinity b)) rs"


section \<open>The scaled number formatter\<close>








subsection \<open>Rounding to three significant digits, in the specification's words\<close>



section \<open>Facts about the number model\<close>

subsection \<open>Rounding to binary64\<close>

lemma bitLength_0: "bitLength 0 = 0"
  by (simp add: bitLength.simps)

lemma bitLength_pos: "0 < k \<Longrightarrow> bitLength k = Suc (bitLength (k div 2))"
  by (subst bitLength.simps) simp

lemmas r64_eval = bitLength_0 bitLength_pos scale2_def binExponent_def roundEven_def round64_def


lemma bitLength_bounds:
  "0 < k \<Longrightarrow> 2 ^ (bitLength k - 1) \<le> k \<and> k < 2 ^ bitLength k"
proof (induction k rule: bitLength.induct)
  case (1 k)
  from "1.prems" have bl: "bitLength k = Suc (bitLength (k div 2))" by (rule bitLength_pos)
  show ?case
  proof (cases "k div 2 = 0")
    case True
    with "1.prems" have "k = 1" by (simp add: div_eq_0_iff)
    then show ?thesis by (simp add: bitLength_pos bitLength_0)
  next
    case False
    then have h: "0 < k div 2" by simp
    from "1.prems" have "k \<noteq> 0" by simp
    from "1.IH" [OF this h] have lo: "2 ^ (bitLength (k div 2) - 1) \<le> k div 2"
      and hi: "k div 2 < 2 ^ bitLength (k div 2)" by simp_all
    from h have "bitLength (k div 2) \<noteq> 0" by (simp add: bitLength_pos)
    then obtain b where b: "bitLength (k div 2) = Suc b" by (cases "bitLength (k div 2)") auto
    from lo b have "2 * 2 ^ b \<le> 2 * (k div 2)" by simp
    also have "\<dots> \<le> k" by simp
    finally have 1: "2 ^ (bitLength k - 1) \<le> k" by (simp add: bl b)
    from hi have "k div 2 + 1 \<le> 2 ^ bitLength (k div 2)" by simp
    then have "2 * (k div 2) + 2 \<le> 2 * 2 ^ bitLength (k div 2)" by simp
    moreover have "k < 2 * (k div 2) + 2" by presburger
    ultimately have "k < 2 ^ bitLength k" by (simp add: bl)
    with 1 show ?thesis by simp
  qed
qed

lemma powr_int_pos: "(2::real) powr (real_of_int (int b)) = 2 ^ b"
proof -
  have "(2::real) powr (real b) = 2 ^ b" by (rule powr_realpow) simp
  then show ?thesis by simp
qed

lemma powr_int_neg: "(2::real) powr (real_of_int (- int b)) = 1 / 2 ^ b"
proof -
  have "(2::real) powr (- real b) = inverse (2 powr (real b))" by (rule powr_minus)
  also have "(2::real) powr (real b) = 2 ^ b" by (rule powr_realpow) simp
  finally show ?thesis by (simp add: divide_inverse)
qed

lemma scale2_powr: "scale2 m e = m * 2 powr (real_of_int e)"
proof (cases "0 \<le> e")
  case True
  then obtain b where e: "e = int b" using nonneg_int_cases by blast
  show ?thesis unfolding e powr_int_pos by (simp add: scale2_def)
next
  case False
  then have "0 \<le> - e" by simp
  then obtain b where "- e = int b" using nonneg_int_cases by blast
  then have e: "e = - int b" by simp
  from False e have "nat (- e) = b" by simp
  with False show ?thesis unfolding e powr_int_neg by (simp add: scale2_def)
qed

lemma binExponent_bounds:
  assumes "0 < a"
  shows "2 powr (real_of_int (binExponent a)) \<le> a"
    and "a < 2 powr (real_of_int (binExponent a + 1))"
proof -
  have "2 powr (real_of_int (binExponent a)) \<le> a \<and> a < 2 powr (real_of_int (binExponent a + 1))"
  proof (cases "1 \<le> a")
    case True
    let ?k = "nat \<lfloor>a\<rfloor>"
    from True have k: "0 < ?k" by simp
    from True have ka: "real ?k \<le> a" "a < real ?k + 1" by linarith+
    from bitLength_bounds [OF k] have lo: "2 ^ (bitLength ?k - 1) \<le> ?k"
      and hi: "?k < 2 ^ bitLength ?k" by simp_all
    from k have "bitLength ?k \<noteq> 0" by (simp add: bitLength_pos)
    then obtain b where b: "bitLength ?k = Suc b" by (cases "bitLength ?k") auto
    have e: "binExponent a = int b" using True by (simp add: binExponent_def b)
    from lo b have "real (2 ^ b) \<le> real ?k" by (simp only: diff_Suc_1 of_nat_le_iff)
    then have "(2::real) ^ b \<le> real ?k" by simp
    with ka have 1: "(2::real) ^ b \<le> a" by linarith
    from hi b have "?k + 1 \<le> 2 ^ Suc b" by simp
    then have "real (?k + 1) \<le> real (2 ^ Suc b)" by (simp only: of_nat_le_iff)
    then have "real ?k + 1 \<le> 2 ^ Suc b" by simp
    with ka have 2: "a < 2 ^ Suc b" by linarith
    have "int b + 1 = int (Suc b)" by simp
    then show ?thesis unfolding e using 1 2 by (simp only: powr_int_pos)
  next
    case False
    with assms have a1: "a < 1" by simp
    let ?k = "nat \<lfloor>1 / a\<rfloor>"
    from assms a1 have "1 < 1 / a" by simp
    then have k: "0 < ?k" by simp
    from assms have "real ?k = real_of_int \<lfloor>1 / a\<rfloor>" by simp
    then have ka: "real ?k \<le> 1 / a" "1 / a < real ?k + 1" by linarith+
    from bitLength_bounds [OF k] have lo: "2 ^ (bitLength ?k - 1) \<le> ?k"
      and hi: "?k < 2 ^ bitLength ?k" by simp_all
    from k have "bitLength ?k \<noteq> 0" by (simp add: bitLength_pos)
    then obtain b where b: "bitLength ?k = Suc b" by (cases "bitLength ?k") auto
    from lo b have "real (2 ^ b) \<le> real ?k" by (simp only: diff_Suc_1 of_nat_le_iff)
    then have "(2::real) ^ b \<le> real ?k" by simp
    with ka have "(2::real) ^ b \<le> 1 / a" by linarith
    with assms have 1: "a * 2 ^ b \<le> 1" by (simp add: field_simps)
    from hi b have "?k + 1 \<le> 2 ^ Suc b" by simp
    then have "real (?k + 1) \<le> real (2 ^ Suc b)" by (simp only: of_nat_le_iff)
    then have "real ?k + 1 \<le> 2 ^ Suc b" by simp
    with ka have "1 / a < 2 ^ Suc b" by linarith
    with assms have 2: "1 < a * 2 ^ Suc b" by (simp add: field_simps)
    show ?thesis
    proof (cases "a * 2 ^ b = 1")
      case True
      then have e: "binExponent a = - int b" using a1 by (simp add: binExponent_def b Let_def)
      from True have "a = 1 / 2 ^ b" by (simp add: field_simps)
      moreover have "(1::real) / (2 * 2 ^ n) < 1 / 2 ^ n" for n by (simp add: field_simps)
      ultimately show ?thesis unfolding e powr_int_neg
        by (cases b) (simp_all add: powr_int_neg powr_int_pos del: of_int_minus of_int_of_nat_eq)
    next
      case ne: False
      then have e: "binExponent a = - int (Suc b)" using a1 by (simp add: binExponent_def b Let_def)
      from 1 ne have "a * 2 ^ b < 1" by simp
      then have u: "a < 1 / 2 ^ b" by (simp add: field_simps)
      from 2 have l: "1 / 2 ^ Suc b < a" by (simp add: field_simps)
      have "- int (Suc b) + 1 = - int b" by simp
      then show ?thesis unfolding e using u l by (simp only: powr_int_neg) simp
    qed
  qed
  then show "2 powr (real_of_int (binExponent a)) \<le> a"
    and "a < 2 powr (real_of_int (binExponent a + 1))" by simp_all
qed

lemma roundEven_near: "\<bar>real_of_int (roundEven y) - y\<bar> \<le> 1 / 2"
  unfolding roundEven_def Let_def by (auto; linarith)

lemma roundEven_int: "roundEven (real_of_int n) = n"
  by (simp add: roundEven_def)


lemma binExponent_nonneg: "1 \<le> a \<Longrightarrow> 0 \<le> binExponent a"
  by (simp add: binExponent_def bitLength_pos)

lemma scale2_inverse: "scale2 (scale2 m e) (- e) = m"
  by (simp add: scale2_powr powr_minus field_simps)

lemma round64_0: "round64 0 = 0"
  by (simp add: round64_def)

lemma round64_minus: "round64 (- x) = - round64 x"
  by (simp add: round64_def Let_def)

lemma round64_pos_props:
  assumes "0 < x"
  shows "\<bar>round64 x - x\<bar> \<le> x / 2 ^ 53" and "0 < round64 x"
proof -
  let ?e = "binExponent x"
  let ?E = "2 powr (real_of_int ?e) :: real"
  let ?s = "scale2 x (52 - ?e)"
  let ?n = "real_of_int (roundEven ?s)"
  have E: "0 < ?E" by simp
  from binExponent_bounds(1) [OF assms] have lo: "?E \<le> x" .
  have p: "(2::real) powr (real_of_int (52 - ?e)) = 2 ^ 52 / ?E"
    by (simp add: powr_diff)
  have q: "(2::real) powr (real_of_int (?e - 52)) = ?E / 2 ^ 52"
    by (simp add: powr_diff)
  have s: "?s = x * 2 ^ 52 / ?E" by (simp add: scale2_powr powr_diff)
  have r: "round64 x = ?n * ?E / 2 ^ 52"
    using assms by (simp add: round64_def Let_def scale2_powr [of _ "?e - 52"] powr_diff)
  have near: "\<bar>?n - ?s\<bar> \<le> 1 / 2" by (rule roundEven_near)
  define c where "c = ?E / 2 ^ 52"
  have c: "0 < c" using E by (simp add: c_def)
  have "round64 x - x = (?n - ?s) * c"
    using E by (simp add: r s c_def field_simps)
  then have "\<bar>round64 x - x\<bar> = \<bar>?n - ?s\<bar> * \<bar>c\<bar>"
    by (simp only: abs_mult)
  also have "\<dots> = \<bar>?n - ?s\<bar> * c" using c by simp
  also have "\<dots> \<le> (1 / 2) * c"
    using near c by (rule mult_right_mono [OF _ less_imp_le])
  also have "\<dots> = ?E / 2 ^ 53" by (simp add: c_def)
  also have "\<dots> \<le> x / 2 ^ 53" using lo by (simp add: divide_right_mono)
  finally show "\<bar>round64 x - x\<bar> \<le> x / 2 ^ 53" .
  from lo E have "2 ^ 52 \<le> ?s" unfolding s by (simp add: field_simps)
  then have "1 \<le> ?s" by simp
  with near have "0 < ?n" by linarith
  with E show "0 < round64 x" unfolding r by simp
qed

lemma round64_error: "\<bar>round64 x - x\<bar> \<le> \<bar>x\<bar> / 2 ^ 53"
proof -
  consider "x = 0" | "0 < x" | "x < 0" by linarith
  then show ?thesis
  proof cases
    case 1
    then show ?thesis by (simp add: round64_0)
  next
    case 2
    with round64_pos_props(1) [OF 2] show ?thesis by simp
  next
    case 3
    then have "0 < - x" by simp
    from round64_pos_props(1) [OF this] 3 show ?thesis by (simp add: round64_minus)
  qed
qed

lemma round64_pos_iff: "(0 < round64 x) = (0 < x)"
proof -
  consider "x = 0" | "0 < x" | "x < 0" by linarith
  then show ?thesis
  proof cases
    case 1
    then show ?thesis by (simp add: round64_0)
  next
    case 2
    with round64_pos_props(2) [OF 2] show ?thesis by simp
  next
    case 3
    then have "0 < - x" by simp
    from round64_pos_props(2) [OF this] 3 show ?thesis by (simp add: round64_minus)
  qed
qed

lemma round64_neg_iff: "(round64 x < 0) = (x < 0)"
  using round64_pos_iff [of "- x"] by (simp add: round64_minus)

lemma round64_zero_iff: "(round64 x = 0) = (x = 0)"
  using round64_pos_iff [of x] round64_neg_iff [of x] by linarith

lemma round64_nat:
  assumes "k < 2 ^ 53"
  shows "round64 (real k) = real k"
proof (cases "k = 0")
  case True
  then show ?thesis by (simp add: round64_0)
next
  case False
  then have pos: "0 < real k" and one: "1 \<le> real k" by simp_all
  let ?e = "binExponent (real k)"
  from binExponent_nonneg [OF one] obtain b where e: "?e = int b"
    using nonneg_int_cases by blast
  from binExponent_bounds(1) [OF pos] have "(2::real) ^ b \<le> real k"
    unfolding e powr_int_pos .
  also from assms have "real k < real (2 ^ 53)" by (simp only: of_nat_less_iff)
  finally have "(2::real) ^ b < 2 ^ 53" by simp
  then have b: "b < 53" by (rule power_less_imp_less_exp [rotated]) simp
  then have d: "52 - ?e = int (52 - b)" unfolding e by simp
  have s: "scale2 (real k) (52 - ?e) = real_of_int (int (k * 2 ^ (52 - b)))"
    unfolding d by (simp add: scale2_def)
  have "scale2 (real_of_int (roundEven (scale2 (real k) (52 - ?e)))) (?e - 52)
          = scale2 (scale2 (real k) (52 - ?e)) (- (52 - ?e))"
    unfolding s roundEven_int by simp
  also have "\<dots> = real k" by (rule scale2_inverse)
  finally show ?thesis using pos by (simp add: round64_def Let_def)
qed

lemma round64_int:
  assumes "x \<in> \<int>" and "\<bar>x\<bar> < 2 ^ 53"
  shows "round64 x = x"
proof -
  from assms(1) obtain n where n: "x = real_of_int n" by (auto elim: Ints_cases)
  let ?k = "nat \<bar>n\<bar>"
  have k: "real ?k = \<bar>x\<bar>" by (simp add: n)
  with assms(2) have "real ?k < real (2 ^ 53)" by simp
  then have "?k < 2 ^ 53" by (simp only: of_nat_less_iff)
  from round64_nat [OF this] have a: "round64 \<bar>x\<bar> = \<bar>x\<bar>" unfolding k .
  show ?thesis
  proof (cases "0 \<le> x")
    case True
    with a show ?thesis by simp
  next
    case False
    with a have "round64 (- x) = - x" by simp
    then show ?thesis by (simp add: round64_minus)
  qed
qed




subsection \<open>Overflow and comparison\<close>

lemma overflow_bound_pos: "0 < overflow_bound"
  by (simp add: overflow_bound_def)


lemma safe_bound: "(2 ^ 53 :: real) < overflow_bound"
  by (simp add: overflow_bound_def)

lemma fl_small: "\<bar>x\<bar> < overflow_bound \<Longrightarrow> fl x = Fin (round64 x)"
  by (auto simp: fl_def)

lemma fl_int: "x \<in> \<int> \<Longrightarrow> \<bar>x\<bar> < 2 ^ 53 \<Longrightarrow> fl x = Fin x"
  using safe_bound by (simp add: fl_small round64_int)

lemma jgt_fl_zero: "jgt (fl d) (Fin 0) = (0 < d)"
  using overflow_bound_pos by (auto simp: jgt_def fl_def round64_pos_iff)

lemma jgt_jsub_zero: "jgt (jsub a b) (Fin 0) = jlt b a"
  by (cases a; cases b) (auto simp: jgt_fl_zero, auto simp: jgt_def)

lemma jlt_asym: "jlt a b \<Longrightarrow> \<not> jlt b a"
  by (cases a; cases b) auto

lemma jlt_irrefl: "\<not> jlt a a"
  by (cases a) auto

lemma jlt_neg_trans: "\<not> isNaN y \<Longrightarrow> \<not> jlt y x \<Longrightarrow> \<not> jlt z y \<Longrightarrow> \<not> jlt z x"
  by (cases x; cases y; cases z) auto

lemma jge_iff_not_jlt: "\<not> isNaN a \<Longrightarrow> \<not> isNaN b \<Longrightarrow> jge a b = (\<not> jlt a b)"
  by (cases a; cases b) (auto simp: jge_def)

lemma jgt_iff_jge_neq: "jgt a b = (jge a b \<and> a \<noteq> b)"
  by (cases a; cases b) (auto simp: jge_def jgt_def)



section \<open>Facts about the sort\<close>

lemma mset_sort_insert: "mset (sort_insert cmp x ys) = add_mset x (mset ys)"
  by (induction ys) simp_all

lemma array_sort_Cons: "array_sort cmp (x # xs) = sort_insert cmp x (array_sort cmp xs)"
  by (simp add: array_sort_def)

lemma array_sort_Nil: "array_sort cmp [] = []"
  by (simp add: array_sort_def)

lemma mset_array_sort: "mset (array_sort cmp xs) = mset xs"
  by (induction xs) (simp_all add: array_sort_Cons array_sort_Nil mset_sort_insert)

lemma set_sort_insert: "set (sort_insert cmp x ys) = insert x (set ys)"
  by (induction ys) auto

lemma set_array_sort: "set (array_sort cmp xs) = set xs"
  by (induction xs) (simp_all add: array_sort_Cons array_sort_Nil set_sort_insert)

lemma filter_sort_insert:
  assumes "\<And>y. y \<in> set ys \<Longrightarrow> P x \<Longrightarrow> jgt (cmp x y) (Fin 0) \<Longrightarrow> \<not> P y"
  shows "filter P (sort_insert cmp x ys) = filter P (x # ys)"
  using assms
proof (induction ys)
  case Nil
  then show ?case by simp
next
  case (Cons y ys)
  have IH: "filter P (sort_insert cmp x ys) = filter P (x # ys)"
  proof (rule Cons.IH)
    fix w assume "w \<in> set ys" "P x" "jgt (cmp x w) (Fin 0)"
    then show "\<not> P w" using Cons.prems [of w] by simp
  qed
  show ?case
  proof (cases "jgt (cmp x y) (Fin 0)")
    case True
    then have "P x \<Longrightarrow> \<not> P y" using Cons.prems [of y] by simp
    with True IH show ?thesis by auto
  next
    case False
    then show ?thesis by simp
  qed
qed

lemma filter_array_sort:
  assumes "\<And>x y. x \<in> set xs \<Longrightarrow> y \<in> set xs \<Longrightarrow> P x \<Longrightarrow> jgt (cmp x y) (Fin 0) \<Longrightarrow> \<not> P y"
  shows "filter P (array_sort cmp xs) = filter P xs"
  using assms
proof (induction xs)
  case Nil
  then show ?case by (simp add: array_sort_Nil)
next
  case (Cons x xs)
  have "filter P (array_sort cmp xs) = filter P xs"
  proof (rule Cons.IH)
    fix a b assume "a \<in> set xs" "b \<in> set xs" "P a" "jgt (cmp a b) (Fin 0)"
    then show "\<not> P b" using Cons.prems [of a b] by simp
  qed
  moreover have "filter P (sort_insert cmp x (array_sort cmp xs)) = filter P (x # array_sort cmp xs)"
  proof (rule filter_sort_insert)
    fix w assume "w \<in> set (array_sort cmp xs)" "P x" "jgt (cmp x w) (Fin 0)"
    then show "\<not> P w" using Cons.prems [of x w] by (simp add: set_array_sort)
  qed
  ultimately show ?case by (simp add: array_sort_Cons)
qed

lemma sorted_wrt_sort_insert:
  assumes G: "\<And>a b. jgt (cmp a b) (Fin 0) = G a b"
    and asym: "\<And>y. y \<in> set ys \<Longrightarrow> G x y \<Longrightarrow> \<not> G y x"
    and tr: "\<And>y z. y \<in> set ys \<Longrightarrow> z \<in> set ys \<Longrightarrow> \<not> G x y \<Longrightarrow> \<not> G y z \<Longrightarrow> \<not> G x z"
    and st: "sorted_wrt (\<lambda>a b. \<not> G a b) ys"
  shows "sorted_wrt (\<lambda>a b. \<not> G a b) (sort_insert cmp x ys)"
  using asym tr st
proof (induction ys)
  case Nil
  then show ?case by simp
next
  case (Cons y ys)
  have st: "sorted_wrt (\<lambda>a b. \<not> G a b) ys" and hd: "\<forall>w\<in>set ys. \<not> G y w"
    using Cons.prems(3) by simp_all
  show ?case
  proof (cases "G x y")
    case True
    have tail: "sorted_wrt (\<lambda>a b. \<not> G a b) (sort_insert cmp x ys)"
    proof (rule Cons.IH [OF _ _ st])
      fix w assume "w \<in> set ys" "G x w"
      then show "\<not> G w x" using Cons.prems(1) [of w] by simp
    next
      fix v w assume "v \<in> set ys" "w \<in> set ys" "\<not> G x v" "\<not> G v w"
      then show "\<not> G x w" using Cons.prems(2) [of v w] by simp
    qed
    have "sort_insert cmp x (y # ys) = y # sort_insert cmp x ys"
      using True by (simp add: G)
    moreover have "\<not> G y x" using Cons.prems(1) [of y] True by simp
    then have "\<forall>w\<in>set (sort_insert cmp x ys). \<not> G y w"
      using hd by (simp add: set_sort_insert)
    ultimately show ?thesis using tail by simp
  next
    case False
    have "sort_insert cmp x (y # ys) = x # y # ys"
      using False by (simp add: G)
    moreover have "\<forall>w\<in>set ys. \<not> G x w"
    proof
      fix w assume w: "w \<in> set ys"
      with hd have "\<not> G y w" by simp
      then show "\<not> G x w" using Cons.prems(2) [of y w] w False by simp
    qed
    ultimately show ?thesis using False hd st by simp
  qed
qed

lemma sorted_wrt_array_sort:
  assumes G: "\<And>a b. jgt (cmp a b) (Fin 0) = G a b"
    and asym: "\<And>x y. x \<in> set xs \<Longrightarrow> y \<in> set xs \<Longrightarrow> G x y \<Longrightarrow> \<not> G y x"
    and tr: "\<And>x y z. x \<in> set xs \<Longrightarrow> y \<in> set xs \<Longrightarrow> z \<in> set xs
               \<Longrightarrow> \<not> G x y \<Longrightarrow> \<not> G y z \<Longrightarrow> \<not> G x z"
  shows "sorted_wrt (\<lambda>a b. \<not> G a b) (array_sort cmp xs)"
  using asym tr
proof (induction xs)
  case Nil
  show ?case by (simp add: array_sort_Nil)
next
  case (Cons x xs)
  have IH: "sorted_wrt (\<lambda>a b. \<not> G a b) (array_sort cmp xs)"
  proof (rule Cons.IH)
    fix a b assume "a \<in> set xs" "b \<in> set xs" "G a b"
    then show "\<not> G b a" using Cons.prems(1) [of a b] by simp
  next
    fix a b c assume "a \<in> set xs" "b \<in> set xs" "c \<in> set xs" "\<not> G a b" "\<not> G b c"
    then show "\<not> G a c" using Cons.prems(2) [of a b c] by simp
  qed
  show ?case
    unfolding array_sort_Cons
  proof (rule sorted_wrt_sort_insert [where G = G and cmp = cmp, OF G _ _ IH])
    fix y assume "y \<in> set (array_sort cmp xs)" "G x y"
    then show "\<not> G y x" using Cons.prems(1) [of x y] by (simp add: set_array_sort)
  next
    fix y z assume "y \<in> set (array_sort cmp xs)" "z \<in> set (array_sort cmp xs)"
      "\<not> G x y" "\<not> G y z"
    then show "\<not> G x z" using Cons.prems(2) [of x y z] by (simp add: set_array_sort)
  qed
qed


section \<open>Facts about the scale table\<close>

lemma scaleEntries_buildScaleUtils:
  "scaleEntries (buildScaleUtils scales) = ([], Fin 1) # sortedEntries scales"
  by (simp add: buildScaleUtils_def sortedEntries_def Let_def split: prod.splits)

lemma scale_compare_gt:
  "jgt ((\<lambda>(ka, a) (kb, b). jsub b a) x y) (Fin 0) = jlt (snd x) (snd y)"
  by (cases x; cases y) (simp add: jgt_jsub_zero)

lemma nonempty_filter_eq:
  "filter (\<lambda>(key, v). key \<noteq> []) scales = filter (\<lambda>e. fst e \<noteq> []) scales"
  by (induction scales) auto

lemma mset_sortedEntries: "mset (sortedEntries scales) = mset (filter (\<lambda>e. fst e \<noteq> []) scales)"
  by (simp add: sortedEntries_def mset_array_sort nonempty_filter_eq)

lemma set_sortedEntries: "set (sortedEntries scales) = {e \<in> set scales. fst e \<noteq> []}"
  by (simp add: sortedEntries_def set_array_sort nonempty_filter_eq)

lemma stable_sortedEntries:
  "filter (\<lambda>e. snd e = v) (sortedEntries scales)
     = filter (\<lambda>e. snd e = v) (filter (\<lambda>e. fst e \<noteq> []) scales)"
  unfolding sortedEntries_def nonempty_filter_eq
proof (rule filter_array_sort)
  fix x y :: "string \<times> jsnum"
  assume "snd x = v" "jgt ((\<lambda>(ka, a) (kb, b). jsub b a) x y) (Fin 0)"
  then show "snd y \<noteq> v" using jlt_irrefl [of v] by (auto simp: scale_compare_gt)
qed

lemma sorted_sortedEntries:
  assumes "\<forall>e\<in>set scales. \<not> isNaN (snd e)"
  shows "sorted_wrt (\<lambda>a b. \<not> jlt (snd a) (snd b)) (sortedEntries scales)"
  unfolding sortedEntries_def
proof (rule sorted_wrt_array_sort [where G = "\<lambda>a b. jlt (snd a) (snd b)"])
  fix a b :: "string \<times> jsnum"
  show "jgt ((\<lambda>(ka, a) (kb, b). jsub b a) a b) (Fin 0) = jlt (snd a) (snd b)"
    by (rule scale_compare_gt)
next
  fix x y :: "string \<times> jsnum"
  assume "jlt (snd x) (snd y)"
  then show "\<not> jlt (snd y) (snd x)" by (rule jlt_asym)
next
  fix x y z :: "string \<times> jsnum"
  assume "y \<in> set (filter (\<lambda>(key, v). key \<noteq> []) scales)"
    and xy: "\<not> jlt (snd x) (snd y)" and yz: "\<not> jlt (snd y) (snd z)"
  with assms have "\<not> isNaN (snd y)" by auto
  from jlt_neg_trans [where y = "snd y" and x = "snd z" and z = "snd x", OF this yz xy]
  show "\<not> jlt (snd x) (snd z)" .
qed

lemma sorted_wrt_strict:
  assumes "sorted_wrt (\<lambda>a b. jge (snd a) (snd b)) es" and "distinct (map snd es)"
  shows "sorted_wrt (\<lambda>a b. jgt (snd a) (snd b)) es"
  using assms
proof (induction es)
  case Nil
  then show ?case by simp
next
  case (Cons e es)
  then have "\<forall>y\<in>set es. jge (snd e) (snd y) \<and> snd e \<noteq> snd y" by auto
  then have "\<forall>y\<in>set es. jgt (snd e) (snd y)" by (simp add: jgt_iff_jge_neq)
  with Cons show ?case by simp
qed


section \<open>Facts about the rune processor\<close>

lemma time_processOne [simp]:
  "time (processOne rps luck r) = Some (timeSeconds rps luck (chanceN (chance r)))"
  by (simp add: processOne_def RuneRecord.defs ProcessedRune.defs)

lemma chance_processOne [simp]: "chance (processOne rps luck r) = chance r"
  by (simp add: processOne_def RuneRecord.defs ProcessedRune.defs)

lemma name_processOne [simp]: "name (processOne rps luck r) = name r"
  by (simp add: processOne_def RuneRecord.defs ProcessedRune.defs)

lemma rune_id_processOne [simp]: "rune_id (processOne rps luck r) = rune_id r"
  by (simp add: processOne_def RuneRecord.defs ProcessedRune.defs)

lemma isSpecial_processOne [simp]: "isSpecial (processOne rps luck r) = False"
  by (simp add: processOne_def RuneRecord.defs ProcessedRune.defs)

lemma timeOrInfinity_processOne [simp]:
  "timeOrInfinity (processOne rps luck r) = timeSeconds rps luck (chanceN (chance r))"
  by (simp add: timeOrInfinity_def)

lemma set_textFilter: "set (textFilter opts ps) \<subseteq> set ps"
  by (auto simp: textFilter_def split: option.splits)

lemma set_hideInstantFilter: "set (hideInstantFilter opts ps) \<subseteq> set ps"
  by (auto simp: hideInstantFilter_def)

lemma processRunes_unsorted:
  "processRunes runes rps luck (opts\<lparr>sort_opt := None\<rparr>)
     = hideInstantFilter opts (textFilter opts (map (processOne rps luck) runes))"
  by (simp add: processRunes_def hideInstantFilter_def textFilter_def)

lemma processRunes_with_sort:
  "sort_opt opts = Some order \<Longrightarrow>
   processRunes runes rps luck opts
     = array_sort (compareTime order) (processRunes runes rps luck (opts\<lparr>sort_opt := None\<rparr>))"
  by (simp add: processRunes_unsorted) (simp add: processRunes_def)

lemma set_processRunes_unsorted:
  "set (processRunes runes rps luck (opts\<lparr>sort_opt := None\<rparr>)) \<subseteq> processOne rps luck ` set runes"
  unfolding processRunes_unsorted using set_textFilter set_hideInstantFilter by fastforce

lemma set_processRunes: "set (processRunes runes rps luck opts) \<subseteq> processOne rps luck ` set runes"
proof (cases "sort_opt opts")
  case None
  then have "opts\<lparr>sort_opt := None\<rparr> = opts" by simp
  with set_processRunes_unsorted [of runes rps luck opts] show ?thesis by simp
next
  case (Some order)
  from processRunes_with_sort [OF this] set_processRunes_unsorted [of runes rps luck opts]
  show ?thesis by (simp add: set_array_sort)
qed

lemma timeSeconds_not_NaN:
  "isFinite n \<Longrightarrow> \<not> isNaN rps \<Longrightarrow> \<not> isNaN luck \<Longrightarrow> \<not> isNaN (timeSeconds rps luck n)"
  by (cases n; cases rps; cases luck)
     (auto simp: timeSeconds_def fl_def signed_inf_def)

lemma timeSeconds_NaN_input:
  "isNaN rps \<or> isNaN luck \<Longrightarrow> timeSeconds rps luck n = NaN \<or> timeSeconds rps luck n = PInf"
  by (cases n; cases rps; cases luck) (auto simp: timeSeconds_def)

lemma compareTime_gt:
  "jgt (compareTime order a b) (Fin 0) =
     (if order = asc then jlt (timeOrInfinity b) (timeOrInfinity a)
      else jlt (timeOrInfinity a) (timeOrInfinity b))"
  by (simp add: compareTime_def Let_def jgt_jsub_zero)

lemma times_coherent:
  assumes fin: "\<forall>r\<in>set runes. isFinite (chanceN (chance r))"
  shows "(\<forall>p\<in>processOne rps luck ` set runes. \<not> isNaN (timeOrInfinity p))
       \<or> (\<forall>p\<in>processOne rps luck ` set runes. \<forall>q\<in>processOne rps luck ` set runes.
             \<not> jlt (timeOrInfinity p) (timeOrInfinity q))"
proof (cases "isNaN rps \<or> isNaN luck")
  case True
  have "\<not> jlt (timeSeconds rps luck a) (timeSeconds rps luck b)" for a b
    using timeSeconds_NaN_input [OF True, of a] timeSeconds_NaN_input [OF True, of b] by auto
  then show ?thesis by simp
next
  case False
  with fin have "\<forall>r\<in>set runes. \<not> isNaN (timeSeconds rps luck (chanceN (chance r)))"
    using timeSeconds_not_NaN [of _ rps luck] by blast
  then show ?thesis by simp
qed


section \<open>Facts about the parser\<close>

lemma isFinite_not_NaN: "isFinite x \<Longrightarrow> \<not> isNaN x"
  by (cases x) auto

lemma findSuffix_cases:
  "findSuffix t es = (np, sf, mu) \<Longrightarrow>
     (sf = [] \<and> np = t \<and> mu = Fin 1) \<or>
     (sf \<noteq> [] \<and> (sf, mu) \<in> set es \<and> np = slice_to_neg t (length sf)
        \<and> isFinite (parseFloat np) \<and> endsWith (toLowerCase t) (toLowerCase sf))"
proof (induction es)
  case Nil
  then show ?case by simp
next
  case (Cons e es)
  obtain s m where e: "e = (s, m)" by (cases e)
  show ?case
  proof (cases "s \<noteq> [] \<and> endsWith (toLowerCase t) (toLowerCase s)
                 \<and> isFinite (parseFloat (slice_to_neg t (length s)))")
    case True
    with Cons.prems e show ?thesis
      by (auto simp: Let_def isFinite_not_NaN)
  next
    case False
    with Cons.prems e have "findSuffix t es = (np, sf, mu)"
      by (auto simp: Let_def split: if_splits)
    from Cons.IH [OF this] show ?thesis by auto
  qed
qed

lemma findSuffix_first:
  assumes "\<forall>e\<in>set before. \<not> suffixAccepted t (fst e)" and "suffixAccepted t s"
  shows "findSuffix t (before @ (s, m) # after) = (slice_to_neg t (length s), s, m)"
  using assms(1)
proof (induction before)
  case Nil
  with assms(2) show ?case by (simp add: suffixAccepted_def Let_def isFinite_not_NaN)
next
  case (Cons e before)
  obtain s' m' where e: "e = (s', m')" by (cases e)
  with Cons.prems have "\<not> suffixAccepted t s'" by simp
  then have "findSuffix t ((s', m') # before @ (s, m) # after) = findSuffix t (before @ (s, m) # after)"
    by (auto simp: suffixAccepted_def Let_def)
  with Cons e show ?case by simp
qed


lemma buildLowerCase_spec:
  "buildLowerCase es (m, c) = (m', c') \<Longrightarrow>
     m' l = (if caseVariants l es = [] then m l
             else Some ((case m l of None \<Rightarrow> [] | Some g \<Rightarrow> g) @ caseVariants l es))
     \<and> (l \<in> c' \<longleftrightarrow> l \<in> c \<or> (caseVariants l es \<noteq> []
            \<and> 1 < length ((case m l of None \<Rightarrow> [] | Some g \<Rightarrow> g) @ caseVariants l es)))"
proof (induction es arbitrary: m c)
  case Nil
  then show ?case by (simp add: caseVariants_def)
next
  case (Cons e es)
  obtain s v where e: "e = (s, v)" by (cases e)
  let ?g = "(case m (toLowerCase s) of None \<Rightarrow> [] | Some g \<Rightarrow> g) @ [s]"
  let ?m = "m(toLowerCase s \<mapsto> ?g)"
  let ?c = "if 1 < length ?g then insert (toLowerCase s) c else c"
  from Cons.prems e have step: "buildLowerCase es (?m, ?c) = (m', c')"
    by (simp add: Let_def)
  note IH = Cons.IH [OF step]
  show ?case
  proof (cases "toLowerCase s = l")
    case True
    have cv: "caseVariants l (e # es) = s # caseVariants l es"
      using True e by (simp add: caseVariants_def)
    from IH True show ?thesis unfolding cv by (auto split: option.splits if_splits)
  next
    case False
    have cv: "caseVariants l (e # es) = caseVariants l es"
      using False e by (simp add: caseVariants_def)
    from IH False show ?thesis unfolding cv by (auto split: option.splits if_splits)
  qed
qed

lemma lowerCaseScaleMap_buildScaleUtils:
  "lowerCaseScaleMap (buildScaleUtils scales) l =
     (if caseVariants l (sortedEntries scales) = [] then None
      else Some (caseVariants l (sortedEntries scales)))"
proof -
  obtain m c where b: "buildLowerCase (sortedEntries scales) (Map.empty, {}) = (m, c)"
    by (cases "buildLowerCase (sortedEntries scales) (Map.empty, {})")
  from buildLowerCase_spec [OF b, of l] b show ?thesis
    by (simp add: buildScaleUtils_def sortedEntries_def Let_def)
qed

lemma conflicting_buildScaleUtils:
  "l \<in> conflictingLowerCaseSuffixes (buildScaleUtils scales)
     \<longleftrightarrow> 1 < length (caseVariants l (sortedEntries scales))"
proof -
  obtain m c where b: "buildLowerCase (sortedEntries scales) (Map.empty, {}) = (m, c)"
    by (cases "buildLowerCase (sortedEntries scales) (Map.empty, {})")
  from buildLowerCase_spec [OF b, of l] b show ?thesis
    by (auto simp: buildScaleUtils_def sortedEntries_def Let_def)
qed

lemma parseScaled_returns:
  assumes "conflictingLowerCaseSuffixes su \<subseteq> dom (lowerCaseScaleMap su)"
  shows "\<exists>r. parseScaled input su = Inr r"
proof -
  obtain np sf mu where f: "findSuffix (trim input) (scaleEntries su) = (np, sf, mu)"
    by (cases "findSuffix (trim input) (scaleEntries su)")
  show ?thesis
  proof (cases "toLowerCase sf \<in> conflictingLowerCaseSuffixes su")
    case True
    with assms obtain g where "lowerCaseScaleMap su (toLowerCase sf) = Some g" by auto
    with f show ?thesis by (simp add: parseScaled_def Let_def)
  next
    case False
    with f show ?thesis by (simp add: parseScaled_def Let_def)
  qed
qed

lemma buildScaleUtils_conflicts_in_map:
  "conflictingLowerCaseSuffixes (buildScaleUtils scales)
     \<subseteq> dom (lowerCaseScaleMap (buildScaleUtils scales))"
  by (auto simp: conflicting_buildScaleUtils lowerCaseScaleMap_buildScaleUtils)

lemma parseScaled_built_returns: "\<exists>r. parseScaled input (buildScaleUtils scales) = Inr r"
  by (rule parseScaled_returns [OF buildScaleUtils_conflicts_in_map])

lemma parseScaled_finite:
  assumes "parseScaled input su = Inr r"
  shows "isFinite (value r)"
proof -
  obtain np sf mu where f: "findSuffix (trim input) (scaleEntries su) = (np, sf, mu)"
    by (cases "findSuffix (trim input) (scaleEntries su)")
  from assms f show ?thesis
    by (auto simp: parseScaled_def Let_def split: if_splits option.splits)
qed

lemma parseScaled_suffix_value:
  assumes t: "trim input \<noteq> []"
    and sci: "\<not> includesChar (trim input) CHR ''e''" "\<not> includesChar (trim input) CHR ''E''"
    and f: "findSuffix (trim input) (scaleEntries su) = (np, sf, mu)" and sf: "sf \<noteq> []"
    and r: "parseScaled input su = Inr r"
  shows "value r = (if isFinite (jmul (parseFloat np) mu) then jmul (parseFloat np) mu else Fin 0)"
proof -
  from findSuffix_cases [OF f] sf have "isFinite (parseFloat np)" by auto
  with r t sci f sf show ?thesis
    by (auto simp: parseScaled_def Let_def isFinite_not_NaN split: if_splits option.splits)
qed

lemma distinct_sortedEntries:
  assumes "distinct (map fst scales)"
  shows "distinct (map fst (sortedEntries scales))"
proof -
  have "mset (map fst (sortedEntries scales)) = mset (map fst (filter (\<lambda>e. fst e \<noteq> []) scales))"
    by (simp add: mset_sortedEntries)
  moreover have "distinct (map fst (filter (\<lambda>e. fst e \<noteq> []) scales))"
    using assms by (rule distinct_map_filter)
  ultimately show ?thesis by (metis mset_eq_imp_distinct_iff)
qed

lemma other_variant_exists:
  assumes "distinct xs" and "1 < length xs"
  shows "filter (\<lambda>s. s \<noteq> x) xs \<noteq> []"
proof (cases xs)
  case Nil
  with assms show ?thesis by simp
next
  case (Cons a ys)
  with assms obtain b zs where ys: "ys = b # zs" by (cases ys) auto
  with Cons assms(1) have "a \<noteq> b" by simp
  then have "a \<noteq> x \<or> b \<noteq> x" by auto
  with Cons ys show ?thesis by auto
qed


section \<open>Evaluation on concrete inputs\<close>

text \<open>The defining equations that the simplifier unfolds to evaluate a closed term.\<close>

lemmas num_eval = r64_eval fl_def overflow_bound_def jgt_def jge_def signed_inf_def
lemmas str_eval = isWhiteSpace_def trim_def lowerChar_def toLowerCase_def includesChar_def
  endsWith_def slice_to_neg_def startsWith_def includesStr_def
lemmas rune_eval = processRunes_def hideInstantFilter_def textFilter_def
  timeSeconds_def testRunes_def testRune_def array_sort_def compareTime_def timeOrInfinity_def

lemmas parse_eval = parseFloat_def parseUnsigned_def isDigit_def digitVal_def digitsVal_def
  exponentPart_def scale10_def
lemmas table_eval = buildScaleUtils_def testScales_def readmeScales_def overlapScales_def
  hugeScales_def array_sort_def ambiguousWarning_def suffixAccepted_def


section \<open>Facts about the duration formatter\<close>

lemma natToString_small: "k < 10 \<Longrightarrow> natToString k = [digitChar k]"
  by (simp add: natToString.simps)

lemma natToString_big: "10 \<le> k \<Longrightarrow> natToString k = natToString (k div 10) @ [digitChar (k mod 10)]"
  by (subst natToString.simps) simp

lemmas time_eval = natToString_small natToString_big digitChar_def showUnit_def humanUnits_def
  unitCounts_def

lemma unitCounts_partsOf:
  "unitCounts k = partsOf [(''year'', 31557600), (''day'', 86400), (''hour'', 3600),
                           (''minute'', 60), (''second'', 1)] k"
  by (simp add: unitCounts_def)

lemma TIME_UNITS_nat:
  "TIME_UNITS = map (\<lambda>(nm, u). (nm, real u))
     [(''year'', 31557600), (''day'', 86400), (''hour'', 3600), (''minute'', 60), (''second'', 1)]"
  by (simp add: TIME_UNITS_def)

lemma jsRem_nat: "0 < u \<Longrightarrow> jsRem (real r) (real u) = real (r mod u)"
proof -
  assume u: "0 < u"
  have "\<lfloor>real r / real u\<rfloor> = int (r div u)" by (simp add: floor_divide_of_nat_eq)
  moreover have "0 \<le> real r / real u" by simp
  ultimately have "jsRem (real r) (real u) = real r - real u * real (r div u)"
    by (simp add: jsRem_def)
  also have "\<dots> = real (r mod u)"
    by (metis add_diff_cancel_left' mult_div_mod_eq of_nat_add of_nat_mult)
  finally show ?thesis .
qed

lemma floor_round64_div:
  assumes u: "0 < u" and r: "r < 2 ^ 53"
  shows "\<lfloor>round64 (real r / real u)\<rfloor> = int (r div u)"
proof -
  let ?y = "real r / real u"
  let ?q = "r div u"
  from u have ru: "real r = real ?q * real u + real (r mod u)"
    by (metis of_nat_add of_nat_mult div_mult_mod_eq)
  with u have y: "?y = real ?q + real (r mod u) / real u" by (simp add: field_simps)
  from u have "r mod u < u" by simp
  then have "r mod u + 1 \<le> u" by simp
  then have "real (r mod u + 1) \<le> real u" by (simp only: of_nat_le_iff)
  with u have "(real (r mod u) + 1) / real u \<le> 1" by simp
  then have "real (r mod u) / real u + 1 / real u \<le> 1" by (simp only: add_divide_distrib)
  then have hi: "?y + 1 / real u \<le> real ?q + 1" unfolding y by simp
  from r have "real r < real (2 ^ 53)" by (simp only: of_nat_less_iff)
  then have a: "real r / 2 ^ 53 < 1" by simp
  from u have "0 < real u" by simp
  from divide_strict_right_mono [OF a this]
  have "real r / 2 ^ 53 / real u < 1 / real u" .
  then have small: "\<bar>?y\<bar> / 2 ^ 53 < 1 / real u" by (simp add: field_simps)
  from round64_error [of ?y] small have err: "\<bar>round64 ?y - ?y\<bar> < 1 / real u" by linarith
  from err hi have upper: "round64 ?y < real ?q + 1" by linarith
  have lower: "real ?q \<le> round64 ?y"
  proof (cases "r mod u = 0")
    case True
    then have "?y = real ?q" unfolding y by simp
    moreover have "?q < 2 ^ 53" by (rule le_less_trans [OF div_le_dividend r])
    ultimately show ?thesis by (simp add: round64_nat)
  next
    case False
    then have "1 \<le> real (r mod u)" by simp
    with u have "1 / real u \<le> real (r mod u) / real u" by (simp add: divide_right_mono)
    then have "real ?q + 1 / real u \<le> ?y" unfolding y by simp
    with err show ?thesis by linarith
  qed
  have "\<lfloor>round64 ?y\<rfloor> = int ?q"
    using lower upper by (simp add: floor_unique)
  then show ?thesis .
qed

lemma timeLoop_partsOf:
  assumes "\<forall>e\<in>set us. 0 < snd e" and "length parts < 3" and "r < 2 ^ 53"
  shows "timeLoop (map (\<lambda>(nm, u). (nm, real u)) us) parts (real r)
           = take 3 (parts @ map showUnit (filter (\<lambda>cu. fst cu \<noteq> 0) (partsOf us r)))"
  using assms
proof (induction us arbitrary: parts r)
  case Nil
  then show ?case by simp
next
  case (Cons e us)
  obtain nm u where e: "e = (nm, u)" by (cases e)
  with Cons.prems have u: "0 < u" and rest: "\<forall>e\<in>set us. 0 < snd e" by auto
  note r = Cons.prems(3)
  have r': "r mod u < 2 ^ 53" by (rule le_less_trans [OF mod_less_eq_dividend r])
  show ?case
  proof (cases "u \<le> r")
    case True
    then have nz: "r div u \<noteq> 0" using u by (simp add: div_eq_0_iff)
    have fl: "\<lfloor>round64 (real r / real u)\<rfloor> = int (r div u)"
      by (rule floor_round64_div [OF u r])
    let ?p = "parts @ [showUnit (r div u, nm)]"
    have step: "timeLoop (map (\<lambda>(nm, u). (nm, real u)) (e # us)) parts (real r)
                  = (if 3 \<le> length ?p then ?p
                     else timeLoop (map (\<lambda>(nm, u). (nm, real u)) us) ?p (real (r mod u)))"
      using True u e by (simp add: Let_def fl jsRem_nat showUnit_def)
    show ?thesis
    proof (cases "3 \<le> length ?p")
      case True
      with Cons.prems(2) have "length ?p = 3" by simp
      then show ?thesis using step True nz e by simp
    next
      case False
      then have "length ?p < 3" by simp
      from Cons.IH [OF rest this r'] step False nz e show ?thesis by simp
    qed
  next
    case False
    then have z: "r div u = 0" "r mod u = r" by simp_all
    from False have "timeLoop (map (\<lambda>(nm, u). (nm, real u)) (e # us)) parts (real r)
                  = timeLoop (map (\<lambda>(nm, u). (nm, real u)) us) parts (real r)"
      using e by simp
    with Cons.IH [OF rest Cons.prems(2) r] z e show ?thesis by simp
  qed
qed

lemma timeLoop_TIME_UNITS:
  "k < 2 ^ 53 \<Longrightarrow> timeLoop TIME_UNITS [] (real k)
     = take 3 (map showUnit (filter (\<lambda>cu. fst cu \<noteq> 0) (unitCounts k)))"
proof -
  assume k: "k < 2 ^ 53"
  let ?us = "[(''year'', 31557600), (''day'', 86400), (''hour'', 3600), (''minute'', 60),
              (''second'', 1)] :: (string \<times> nat) list"
  have "timeLoop (map (\<lambda>(nm, u). (nm, real u)) ?us) [] (real k)
          = take 3 ([] @ map showUnit (filter (\<lambda>cu. fst cu \<noteq> 0) (partsOf ?us k)))"
    by (rule timeLoop_partsOf [OF _ _ k]) simp_all
  then show ?thesis unfolding TIME_UNITS_nat unitCounts_partsOf append_Nil .
qed

lemma unitCounts_nonzero: "0 < k \<Longrightarrow> filter (\<lambda>cu. fst cu \<noteq> 0) (unitCounts k) \<noteq> []"
proof (rule ccontr)
  assume k: "0 < k" and "\<not> filter (\<lambda>cu. fst cu \<noteq> 0) (unitCounts k) \<noteq> []"
  then have "\<forall>cu\<in>set (unitCounts k). fst cu = 0"
    by (simp only: filter_empty_conv not_not)
  then have z: "k div 31557600 = 0" "k mod 31557600 div 86400 = 0"
    "k mod 31557600 mod 86400 div 3600 = 0" "k mod 31557600 mod 86400 mod 3600 div 60 = 0"
    "k mod 31557600 mod 86400 mod 3600 mod 60 = 0"
    by (simp_all add: unitCounts_def)
  from z(1) have 1: "k mod 31557600 = k" by (simp add: div_eq_0_iff)
  from z(2) have 2: "k mod 86400 = k" unfolding 1 by (simp add: div_eq_0_iff)
  from z(3) have 3: "k mod 3600 = k" unfolding 1 2 by (simp add: div_eq_0_iff)
  from z(4) have 4: "k mod 60 = k" unfolding 1 2 3 by (simp add: div_eq_0_iff)
  from z(5) have "k = 0" unfolding 1 2 3 4 .
  with k show False by simp
qed

lemma absurd_bound:
  "jmul (jmul (jmul (jmul (Fin (10 ^ 15)) (Fin 365.25)) (Fin 24)) (Fin 60)) (Fin 60)
     = Fin 31557600000000001048576"
  by (simp add: num_eval Let_def)

lemma formatTimeHuman_units:
  assumes "1 \<le> x" and "x < 2 ^ 53"
  shows "formatTimeHuman (Fin x) = humanUnits (nat \<lfloor>x\<rfloor>)"
proof -
  let ?k = "nat \<lfloor>x\<rfloor>"
  from assms(1) have k: "0 < ?k" and fl: "real_of_int \<lfloor>x\<rfloor> = real ?k" by simp_all
  have "real_of_int \<lfloor>x\<rfloor> \<le> x" by (rule of_int_floor_le)
  with fl assms(2) have "real ?k < 2 ^ 53" by linarith
  then have "real ?k < real (2 ^ 53)" by simp
  then have k53: "?k < 2 ^ 53" by (simp only: of_nat_less_iff)
  let ?parts = "take 3 (map showUnit (filter (\<lambda>cu. fst cu \<noteq> 0) (unitCounts ?k)))"
  have parts: "timeLoop TIME_UNITS [] (real_of_int \<lfloor>x\<rfloor>) = ?parts"
    unfolding fl by (rule timeLoop_TIME_UNITS [OF k53])
  have ne: "length ?parts \<noteq> 0" using unitCounts_nonzero [OF k] by simp
  from assms(2) have "\<not> 31557600000000001048576 < x" by simp
  then have "formatTimeHuman (Fin x)
          = (if length (timeLoop TIME_UNITS [] (real_of_int \<lfloor>x\<rfloor>)) = 0 then ''Instant''
             else join (timeLoop TIME_UNITS [] (real_of_int \<lfloor>x\<rfloor>)) '', '')"
    unfolding formatTimeHuman_def absurd_bound
    using assms(1) by (simp add: jgt_def Let_def del: length_0_conv)
  also have "\<dots> = join ?parts '', ''"
    unfolding parts using ne by (simp only: if_False)
  finally show ?thesis by (simp only: humanUnits_def)
qed

lemma formatTimeHuman_absurd:
  "31557600000000001048576 < x \<Longrightarrow> formatTimeHuman (Fin x) = ellipsis"
  unfolding formatTimeHuman_def absurd_bound by (simp add: jgt_def)

section \<open>Facts about digits\<close>






























section \<open>Facts about strings and the loops over the table\<close>





































section \<open>Evaluation of the formatter\<close>









section \<open>The time formula: properties\<close>

text \<open>
  Claim C1. \<open>timeSeconds\<close> returns \<open>Infinity\<close> whenever \<open>rps \<le> 0\<close>, \<open>luck \<le> 0\<close> or
  \<open>n \<le> 0\<close>, and the quotient \<open>n / (rps * luck)\<close> of JavaScript arithmetic otherwise; at
  \<open>(10, 2, 1000000)\<close> it is \<open>50000\<close>.
\<close>

theorem timeSeconds_spec:
  "(jle rps (Fin 0) \<or> jle luck (Fin 0) \<or> jle n (Fin 0) \<longrightarrow> timeSeconds rps luck n = PInf)
   \<and> (\<not> (jle rps (Fin 0) \<or> jle luck (Fin 0) \<or> jle n (Fin 0))
        \<longrightarrow> timeSeconds rps luck n = jdiv n (jmul rps luck))
   \<and> timeSeconds (Fin 10) (Fin 2) (Fin 1000000) = Fin 50000"
proof -
  have "fl (10 * 2) = Fin 20" "fl (1000000 / 20) = Fin 50000"
    by (simp_all add: fl_int)
  then show ?thesis by (simp add: timeSeconds_def)
qed

theorem timeSeconds_spec_witness:
  "timeSeconds (Fin 0) (Fin 1) (Fin 100) = PInf
   \<and> timeSeconds (Fin 1) (Fin 1) (Fin 100) = jdiv (Fin 100) (jmul (Fin 1) (Fin 1))"
  using timeSeconds_spec [of "Fin 0" "Fin 1" "Fin 100"]
        timeSeconds_spec [of "Fin 1" "Fin 1" "Fin 100"]
  by simp

section \<open>The parser: malformed input\<close>

text \<open>
  Claim C2. For every input and every scale table \<open>parseScaled\<close> returns a result, and an
  input that cannot be read gives the value \<open>0\<close> with a warning: an input that is empty
  once trimmed, scientific notation that does not parse to a finite number, no accepted
  suffix and no finite plain number, or a product with the multiplier that is not finite.
  The remaining case of the source, a matched suffix whose numeric prefix does not parse,
  never arises: the loop accepts a suffix only when the prefix parses.
\<close>

theorem parseScaled_degrades:
  "let su = buildScaleUtils scales;
       t = trim input;
       sci = (includesChar t CHR ''e'' \<or> includesChar t CHR ''E'');
       found = findSuffix t (scaleEntries su);
       numPart = fst found; suffix = fst (snd found); m = snd (snd found)
   in \<exists>r. parseScaled input su = Inr r
        \<and> (t = [] \<longrightarrow> r = \<lparr>value = Fin 0, warning = Some ''Empty input''\<rparr>)
        \<and> (t \<noteq> [] \<and> sci \<and> \<not> isFinite (parseFloat t)
             \<longrightarrow> r = \<lparr>value = Fin 0, warning = Some ''Invalid scientific notation''\<rparr>)
        \<and> (t \<noteq> [] \<and> \<not> sci \<and> suffix = [] \<and> \<not> isFinite (parseFloat t)
             \<longrightarrow> r = \<lparr>value = Fin 0, warning = Some ''Invalid number format''\<rparr>)
        \<and> (t \<noteq> [] \<and> \<not> sci \<and> suffix \<noteq> [] \<longrightarrow> isFinite (parseFloat numPart))
        \<and> (t \<noteq> [] \<and> \<not> sci \<and> suffix \<noteq> [] \<and> \<not> isFinite (jmul (parseFloat numPart) m)
             \<longrightarrow> r = \<lparr>value = Fin 0, warning = Some ''Result too large''\<rparr>)"
proof -
  let ?su = "buildScaleUtils scales"
  obtain np sf mu where f: "findSuffix (trim input) (scaleEntries ?su) = (np, sf, mu)"
    by (cases "findSuffix (trim input) (scaleEntries ?su)")
  from findSuffix_cases [OF f] have fin: "sf \<noteq> [] \<Longrightarrow> isFinite (parseFloat np)" by auto
  from parseScaled_built_returns [of input scales] obtain r
    where r: "parseScaled input ?su = Inr r" by blast
  have 1: "trim input = [] \<Longrightarrow> r = \<lparr>value = Fin 0, warning = Some ''Empty input''\<rparr>"
    using r by (simp add: parseScaled_def)
  have 2: "r = \<lparr>value = Fin 0, warning = Some ''Invalid scientific notation''\<rparr>"
    if "trim input \<noteq> []" "includesChar (trim input) CHR ''e'' \<or> includesChar (trim input) CHR ''E''"
       "\<not> isFinite (parseFloat (trim input))"
    using r that by (auto simp: parseScaled_def Let_def)
  have 3: "r = \<lparr>value = Fin 0, warning = Some ''Invalid number format''\<rparr>"
    if "trim input \<noteq> []" "\<not> (includesChar (trim input) CHR ''e'' \<or> includesChar (trim input) CHR ''E'')"
       "sf = []" "\<not> isFinite (parseFloat (trim input))"
    using r that f by (auto simp: parseScaled_def Let_def)
  have 5: "r = \<lparr>value = Fin 0, warning = Some ''Result too large''\<rparr>"
    if "trim input \<noteq> []" "\<not> (includesChar (trim input) CHR ''e'' \<or> includesChar (trim input) CHR ''E'')"
       "sf \<noteq> []" "\<not> isFinite (jmul (parseFloat np) mu)"
    using r that f fin by (auto simp: parseScaled_def Let_def isFinite_not_NaN)
  from r 1 2 3 5 fin show ?thesis
    unfolding Let_def f fst_conv snd_conv by blast
qed


theorem parseScaled_degrades_witness:
  "parseScaled ''   '' (buildScaleUtils testScales)
     = Inr \<lparr>value = Fin 0, warning = Some ''Empty input''\<rparr>
   \<and> parseScaled ''e5'' (buildScaleUtils testScales)
     = Inr \<lparr>value = Fin 0, warning = Some ''Invalid scientific notation''\<rparr>
   \<and> parseScaled ''abc'' (buildScaleUtils testScales)
     = Inr \<lparr>value = Fin 0, warning = Some ''Invalid number format''\<rparr>
   \<and> parseScaled ''10k'' (buildScaleUtils hugeScales)
     = Inr \<lparr>value = Fin 0, warning = Some ''Result too large''\<rparr>"
proof -
  have 1: "trim ''   '' = []"
    by (simp add: str_eval)
  have 2: "trim ''e5'' = ''e5''" "\<not> isFinite (parseFloat ''e5'')"
    by (simp_all add: str_eval parse_eval)
  have 3: "trim ''abc'' = ''abc''" "\<not> isFinite (parseFloat ''abc'')"
    "findSuffix ''abc'' (scaleEntries (buildScaleUtils testScales)) = (''abc'', [], Fin 1)"
    by (simp_all add: str_eval parse_eval num_eval table_eval Let_def split: prod.splits)
  have 4: "trim ''10k'' = ''10k''"
    "findSuffix ''10k'' (scaleEntries (buildScaleUtils hugeScales)) = (''10'', ''k'', Fin (10 ^ 308))"
    by (simp_all add: str_eval parse_eval num_eval table_eval Let_def split: prod.splits)
  have 5: "\<not> isFinite (jmul (parseFloat ''10'') (Fin (10 ^ 308)))"
    by (simp add: str_eval parse_eval num_eval)
  from parseScaled_degrades [of testScales "''   ''"] 1
  have a: "parseScaled ''   '' (buildScaleUtils testScales)
     = Inr \<lparr>value = Fin 0, warning = Some ''Empty input''\<rparr>"
    by (auto simp: Let_def)
  from parseScaled_degrades [of testScales "''e5''"] 2
  have b: "parseScaled ''e5'' (buildScaleUtils testScales)
     = Inr \<lparr>value = Fin 0, warning = Some ''Invalid scientific notation''\<rparr>"
    by (auto simp: Let_def includesChar_def)
  from parseScaled_degrades [of testScales "''abc''"] 3
  have c: "parseScaled ''abc'' (buildScaleUtils testScales)
     = Inr \<lparr>value = Fin 0, warning = Some ''Invalid number format''\<rparr>"
    by (auto simp: Let_def includesChar_def)
  from parseScaled_degrades [of hugeScales "''10k''"] 4 5
  have d: "parseScaled ''10k'' (buildScaleUtils hugeScales)
     = Inr \<lparr>value = Fin 0, warning = Some ''Result too large''\<rparr>"
    by (auto simp: Let_def includesChar_def)
  from a b c d show ?thesis by simp
qed


section \<open>Formatting and parsing back\<close>






section \<open>The scale table: order of the entries\<close>

text \<open>
  Claim C4 says that the entries after \<open>("", 1)\<close> are sorted strictly descending by
  multiplier. The table of the test suite has \<open>k\<close> and \<open>K\<close> with the same multiplier
  \<open>1000\<close>, and \<open>buildScaleUtils\<close> keeps both, side by side.
\<close>

theorem buildScaleUtils_strict_counterexample:
  "scaleEntries (buildScaleUtils testScales)
     = [([], Fin 1), (''T'', Fin 1000000000000), (''B'', Fin 1000000000), (''M'', Fin 1000000),
        (''k'', Fin 1000), (''K'', Fin 1000)]
   \<and> \<not> strictlyDescending (tl (scaleEntries (buildScaleUtils testScales)))"
  by (simp add: buildScaleUtils_def testScales_def array_sort_def num_eval Let_def
      strictlyDescending_def split: prod.splits)

text \<open>
  Claim C4, amended. For a suffix table whose multipliers are numbers (not \<open>NaN\<close>), the
  entries \<open>buildScaleUtils\<close> produces start with \<open>("", 1)\<close>; the remaining ones are the
  entries with a non-empty suffix, sorted descending by multiplier, entries of equal
  multiplier in their original order; they are strictly descending when no two of them
  share a multiplier.
\<close>

theorem buildScaleUtils_entries_order:
  assumes "\<forall>e\<in>set scales. \<not> isNaN (snd e)"
  shows "\<exists>rest. scaleEntries (buildScaleUtils scales) = ([], Fin 1) # rest
           \<and> mset rest = mset (filter (\<lambda>e. fst e \<noteq> []) scales)
           \<and> descending rest
           \<and> filter (\<lambda>e. snd e = v) rest
               = filter (\<lambda>e. snd e = v) (filter (\<lambda>e. fst e \<noteq> []) scales)
           \<and> (distinct (map snd (filter (\<lambda>e. fst e \<noteq> []) scales)) \<longrightarrow> strictlyDescending rest)"
proof -
  let ?rest = "sortedEntries scales"
  have nn: "\<forall>e\<in>set ?rest. \<not> isNaN (snd e)"
    using assms by (simp add: set_sortedEntries)
  have "sorted_wrt (\<lambda>a b. \<not> jlt (snd a) (snd b)) ?rest"
    by (rule sorted_sortedEntries [OF assms])
  then have desc: "sorted_wrt (\<lambda>a b. jge (snd a) (snd b)) ?rest"
    by (rule sorted_wrt_mono_rel [rotated]) (use nn in \<open>simp add: jge_iff_not_jlt\<close>)
  have strict: "strictlyDescending ?rest"
    if d: "distinct (map snd (filter (\<lambda>e. fst e \<noteq> []) scales))"
  proof -
    have "mset (map snd ?rest) = mset (map snd (filter (\<lambda>e. fst e \<noteq> []) scales))"
      by (simp add: mset_sortedEntries)
    with d have "distinct (map snd ?rest)" by (metis mset_eq_imp_distinct_iff)
    with desc show ?thesis unfolding strictlyDescending_def by (rule sorted_wrt_strict)
  qed
  from desc strict show ?thesis
    by (simp add: scaleEntries_buildScaleUtils mset_sortedEntries stable_sortedEntries
        descending_def)
qed


theorem buildScaleUtils_entries_order_witness:
  "list_all (\<lambda>e. \<not> isNaN (snd e)) testScales
   \<and> descending (tl (scaleEntries (buildScaleUtils testScales)))
   \<and> strictlyDescending (tl (scaleEntries (buildScaleUtils readmeScales)))"
proof -
  have t: "\<forall>e\<in>set testScales. \<not> isNaN (snd e)"
    by (simp add: testScales_def)
  have r: "\<forall>e\<in>set readmeScales. \<not> isNaN (snd e)"
    by (simp add: readmeScales_def)
  have d: "distinct (map snd (filter (\<lambda>e. fst e \<noteq> []) readmeScales))"
    by (simp add: readmeScales_def)
  from buildScaleUtils_entries_order [OF t, of "Fin 0"]
  obtain r1 where "scaleEntries (buildScaleUtils testScales) = ([], Fin 1) # r1" "descending r1"
    by blast
  moreover from buildScaleUtils_entries_order [OF r, of "Fin 0"] d
  obtain r2 where "scaleEntries (buildScaleUtils readmeScales) = ([], Fin 1) # r2"
    "strictlyDescending r2"
    by blast
  ultimately show ?thesis using t by (simp add: list_all_iff)
qed


section \<open>The parser: the first accepted suffix wins\<close>

text \<open>
  Claim C5. The suffix loop takes the first entry, in the order of the table, whose suffix
  the text ends with up to case and whose remaining prefix parses as a finite number, and
  looks no further: the entries before it were all refused, and what comes after it plays
  no part, even a longer suffix that matches as well. The value is the prefix times the
  multiplier of that entry (or \<open>0\<close> when the product is not finite). In the example, \<open>5KM\<close>
  ends with both \<open>M\<close> and \<open>KM\<close>; \<open>M\<close> has the larger multiplier, comes first and wins.
\<close>

theorem parseScaled_first_match:
  assumes "trim input \<noteq> []"
    and "\<not> includesChar (trim input) CHR ''e''" and "\<not> includesChar (trim input) CHR ''E''"
    and "scaleEntries (buildScaleUtils scales) = before @ (s, m) # after"
    and "\<forall>e\<in>set before. \<not> suffixAccepted (trim input) (fst e)"
    and "suffixAccepted (trim input) s"
  shows "findSuffix (trim input) (scaleEntries (buildScaleUtils scales))
           = (slice_to_neg (trim input) (length s), s, m)
       \<and> (\<exists>r. parseScaled input (buildScaleUtils scales) = Inr r
             \<and> value r = (let product = jmul (parseFloat (slice_to_neg (trim input) (length s))) m
                          in if isFinite product then product else Fin 0))"
proof -
  have f: "findSuffix (trim input) (scaleEntries (buildScaleUtils scales))
           = (slice_to_neg (trim input) (length s), s, m)"
    unfolding assms(4) by (rule findSuffix_first [OF assms(5,6)])
  from assms(6) have s: "s \<noteq> []" by (simp add: suffixAccepted_def)
  from parseScaled_built_returns [of input scales] obtain r
    where r: "parseScaled input (buildScaleUtils scales) = Inr r" by blast
  from parseScaled_suffix_value [OF assms(1-3) f s r] f r show ?thesis
    by (simp add: Let_def)
qed

theorem parseScaled_first_match_witness:
  "scaleEntries (buildScaleUtils overlapScales) = [([], Fin 1), (''M'', Fin 1000000), (''KM'', Fin 1000)]
   \<and> suffixAccepted ''5KM'' ''M'' \<and> suffixAccepted ''5KM'' ''KM''
   \<and> parseScaled ''5KM'' (buildScaleUtils overlapScales)
       = Inr \<lparr>value = Fin 5000000, warning = None\<rparr>"
proof -
  have e: "scaleEntries (buildScaleUtils overlapScales)
             = [([], Fin 1)] @ (''M'', Fin 1000000) # [(''KM'', Fin 1000)]"
    by (simp add: table_eval num_eval Let_def split: prod.splits)
  have t: "trim ''5KM'' = ''5KM''" by (simp add: str_eval)
  have acc: "suffixAccepted ''5KM'' ''M''" "suffixAccepted ''5KM'' ''KM''"
    "\<not> suffixAccepted ''5KM'' []"
    by (simp_all add: suffixAccepted_def str_eval parse_eval num_eval)
  have v: "jmul (parseFloat (slice_to_neg ''5KM'' (length ''M''))) (Fin 1000000) = Fin 5000000"
    by (simp add: str_eval parse_eval num_eval)
  have w: "warning r = None" if "parseScaled ''5KM'' (buildScaleUtils overlapScales) = Inr r" for r
    using that
    by (auto simp: parseScaled_def str_eval parse_eval num_eval table_eval Let_def
        split: prod.splits)
  from parseScaled_first_match [of "''5KM''" overlapScales "[([], Fin 1)]" "''M''" "Fin 1000000"
         "[(''KM'', Fin 1000)]"] e t acc v
  obtain r where "parseScaled ''5KM'' (buildScaleUtils overlapScales) = Inr r"
    "value r = Fin 5000000"
    by (auto simp: includesChar_def Let_def)
  with w [of r] e acc show ?thesis by simp
qed


section \<open>The parser: ambiguous suffixes\<close>

text \<open>
  Claim C6 says that a match on a suffix of an ambiguous group always succeeds with the
  value prefix times multiplier and the ambiguity warning. The check for a product that
  is not finite comes first in \<open>parseScaled\<close>: with \<open>k\<close> and \<open>K\<close> both at \<open>1e308\<close>, the input
  \<open>10k\<close> matches \<open>k\<close>, the product overflows, and the result is \<open>0\<close> with the warning
  \<open>Result too large\<close>.
\<close>

theorem parseScaled_ambiguous_overflow_counterexample:
  "findSuffix (trim ''10k'') (scaleEntries (buildScaleUtils hugeScales)) = (''10'', ''k'', Fin (10 ^ 308))
   \<and> toLowerCase ''k'' \<in> conflictingLowerCaseSuffixes (buildScaleUtils hugeScales)
   \<and> parseScaled ''10k'' (buildScaleUtils hugeScales)
       = Inr \<lparr>value = Fin 0, warning = Some ''Result too large''\<rparr>"
  by (simp add: parseScaled_def str_eval parse_eval num_eval table_eval Let_def split: prod.splits)


text \<open>
  Claim C6, amended. When \<open>parseScaled\<close> matches a suffix whose lower-case form is in the
  ambiguous set of the table, and the product of the numeric prefix and the multiplier is
  finite, the result is that product together with the warning that names the matched
  suffix and lists the other suffixes of the table with the same lower-case form, of which
  there is at least one. With \<open>k\<close> and \<open>K\<close> at \<open>1000\<close>, \<open>1.5k\<close> gives \<open>1500\<close> and the
  warning.
\<close>

theorem parseScaled_ambiguous:
  assumes keys: "distinct (map fst scales)"
    and t: "trim input \<noteq> []"
    and sci: "\<not> includesChar (trim input) CHR ''e''" "\<not> includesChar (trim input) CHR ''E''"
    and f: "findSuffix (trim input) (scaleEntries (buildScaleUtils scales)) = (numPart, suffix, m)"
    and sf: "suffix \<noteq> []"
    and amb: "toLowerCase suffix \<in> conflictingLowerCaseSuffixes (buildScaleUtils scales)"
    and fin: "isFinite (jmul (parseFloat numPart) m)"
  shows "parseScaled input (buildScaleUtils scales)
           = Inr \<lparr>value = jmul (parseFloat numPart) m,
                  warning = Some (ambiguousWarning suffix
                    (filter (\<lambda>s. s \<noteq> suffix)
                       (caseVariants (toLowerCase suffix) (sortedEntries scales))))\<rparr>
       \<and> filter (\<lambda>s. s \<noteq> suffix) (caseVariants (toLowerCase suffix) (sortedEntries scales)) \<noteq> []
       \<and> set (filter (\<lambda>s. s \<noteq> suffix) (caseVariants (toLowerCase suffix) (sortedEntries scales)))
           = {s \<in> fst ` set scales. s \<noteq> [] \<and> s \<noteq> suffix \<and> toLowerCase s = toLowerCase suffix}"
proof -
  let ?su = "buildScaleUtils scales"
  let ?cv = "caseVariants (toLowerCase suffix) (sortedEntries scales)"
  from findSuffix_cases [OF f] sf have np: "isFinite (parseFloat numPart)" by auto
  from amb have len: "1 < length ?cv" by (simp add: conflicting_buildScaleUtils)
  then have ne: "?cv \<noteq> []" by auto
  have "distinct ?cv"
    unfolding caseVariants_def using distinct_sortedEntries [OF keys] by (rule distinct_filter)
  from other_variant_exists [OF this len]
  have alt: "filter (\<lambda>s. s \<noteq> suffix) ?cv \<noteq> []" .
  have m: "lowerCaseScaleMap ?su (toLowerCase suffix) = Some ?cv"
    using ne by (simp add: lowerCaseScaleMap_buildScaleUtils)
  have "parseScaled input ?su
           = Inr \<lparr>value = jmul (parseFloat numPart) m,
                  warning = Some (ambiguousWarning suffix (filter (\<lambda>s. s \<noteq> suffix) ?cv))\<rparr>"
    using t sci f sf np fin amb m alt
    by (simp add: parseScaled_def Let_def isFinite_not_NaN)
  moreover have "set (filter (\<lambda>s. s \<noteq> suffix) ?cv)
           = {s \<in> fst ` set scales. s \<noteq> [] \<and> s \<noteq> suffix \<and> toLowerCase s = toLowerCase suffix}"
    by (auto simp: caseVariants_def set_sortedEntries)
  ultimately show ?thesis using alt by simp
qed

theorem parseScaled_ambiguous_witness:
  "distinct (map fst testScales)
   \<and> ''k'' \<in> conflictingLowerCaseSuffixes (buildScaleUtils testScales)
   \<and> parseScaled ''1.5k'' (buildScaleUtils testScales)
       = Inr \<lparr>value = Fin 1500,
              warning = Some (''Ambiguous suffix '' @ [CHR 0x22] @ ''k'' @ [CHR 0x22]
                                @ '' - could also mean: K'')\<rparr>"
proof -
  have d: "distinct (map fst testScales)" by (simp add: testScales_def)
  have t: "trim ''1.5k'' = ''1.5k''" by (simp add: str_eval)
  have f: "findSuffix ''1.5k'' (scaleEntries (buildScaleUtils testScales)) = (''1.5'', ''k'', Fin 1000)"
    by (simp add: str_eval parse_eval num_eval table_eval Let_def split: prod.splits)
  have c: "''k'' \<in> conflictingLowerCaseSuffixes (buildScaleUtils testScales)"
    by (simp add: str_eval num_eval table_eval Let_def split: prod.splits)
  have v: "jmul (parseFloat ''1.5'') (Fin 1000) = Fin 1500"
    by (simp add: str_eval parse_eval num_eval)
  have cv: "caseVariants ''k'' (sortedEntries testScales) = [''k'', ''K'']"
    by (simp add: caseVariants_def sortedEntries_def str_eval num_eval table_eval)
  have l: "toLowerCase ''k'' = ''k''" by (simp add: str_eval)
  from parseScaled_ambiguous [of testScales "''1.5k''" "''1.5''" "''k''" "Fin 1000"] d t f c v cv l
  have "parseScaled ''1.5k'' (buildScaleUtils testScales)
       = Inr \<lparr>value = Fin 1500, warning = Some (ambiguousWarning ''k'' [''K''])\<rparr>"
    by (simp add: includesChar_def)
  with d c show ?thesis by (simp add: ambiguousWarning_def)
qed


section \<open>The duration formatter: properties\<close>

text \<open>
  Claim C7 says that every finite input of at least \<open>1\<close> is decomposed greedily into units.
  Two inputs show that it is not. Above \<open>10^15\<close> years \<open>formatTimeHuman\<close> returns a fixed
  string instead, as its test for absurdly large values expects: the binary64 number
  nearest to \<open>10^30\<close> gives that string, not the years, days and hours of the decomposition.
  And below that bound the quotients of the loop are binary64 quotients: for
  \<open>8.29 * 10^20\<close> seconds the quotient by the seconds of a year rounds up to the next whole
  number, and the function prints one year more than the greedy decomposition has.
\<close>

theorem formatTimeHuman_ellipsis_counterexample:
  "isFinite (Fin 1000000000000000019884624838656)
   \<and> \<not> jlt (Fin 1000000000000000019884624838656) (Fin 1)
   \<and> formatTimeHuman (Fin 1000000000000000019884624838656)
       = [CHR 0xC3, CHR 0xA2, CHR 0xE2, CHR 0x82, CHR 0xAC, CHR 0xC2, CHR 0xA6]
   \<and> humanUnits 1000000000000000019884624838656
       = ''31688087814028950867132 years, 231 days, 21 hours''
   \<and> isFinite (Fin (829 * 10 ^ 18)) \<and> \<not> jlt (Fin (829 * 10 ^ 18)) (Fin 1)
   \<and> formatTimeHuman (Fin (829 * 10 ^ 18)) = ''26269424797830 years, 365 days, 3 hours''
   \<and> humanUnits (829 * 10 ^ 18) = ''26269424797829 years, 365 days, 3 hours''"
proof -
  have a: "formatTimeHuman (Fin 1000000000000000019884624838656)
       = [CHR 0xC3, CHR 0xA2, CHR 0xE2, CHR 0x82, CHR 0xAC, CHR 0xC2, CHR 0xA6]"
    using formatTimeHuman_absurd [of 1000000000000000019884624838656]
    by (simp add: ellipsis_def)
  have b: "humanUnits 1000000000000000019884624838656
       = ''31688087814028950867132 years, 231 days, 21 hours''"
    by (simp add: time_eval)
  have c: "formatTimeHuman (Fin (829 * 10 ^ 18)) = ''26269424797830 years, 365 days, 3 hours''"
    unfolding formatTimeHuman_def absurd_bound
    by (simp add: jgt_def TIME_UNITS_def jsRem_def r64_eval time_eval Let_def)
  have d: "humanUnits (829 * 10 ^ 18) = ''26269424797829 years, 365 days, 3 hours''"
    by (simp add: time_eval)
  from a b c d show ?thesis by simp
qed

text \<open>
  Claim C7, amended. \<open>formatTimeHuman\<close> returns \<open>Never\<close> for every input that is not finite
  and \<open>Instant\<close> for every finite input below \<open>1\<close>. For an input from \<open>1\<close> up to, not
  including, \<open>2^53\<close> seconds (some 285 million years) it returns the greedy decomposition of
  the floor of the input into years of 365.25 days, days, hours, minutes and seconds, each
  non-zero unit written \<open><count> <unit>\<close> with the plural unless the count is \<open>1\<close>, the
  first three kept and joined by \<open>", "\<close>, the smaller ones dropped without rounding. For an
  input above \<open>31557600000000001048576\<close>, which is \<open>10^15\<close> years in seconds as binary64
  arithmetic computes them, it returns the fixed string of the source, a mis-encoded
  ellipsis. In particular \<open>0.5\<close> gives \<open>Instant\<close>, \<open>90\<close> gives \<open>1 minute, 30 seconds\<close>,
  \<open>3665\<close> gives \<open>1 hour, 1 minute, 5 seconds\<close> and \<open>Infinity\<close> gives \<open>Never\<close>. From \<open>2^53\<close>
  seconds up to the bound the counts come from rounded quotients and need not be those of
  the greedy decomposition; nothing is stated about that range.
\<close>

theorem formatTimeHuman_spec:
  "(\<not> isFinite s \<longrightarrow> formatTimeHuman s = ''Never'')
   \<and> (isFinite s \<and> jlt s (Fin 1) \<longrightarrow> formatTimeHuman s = ''Instant'')
   \<and> (1 \<le> x \<and> x < 2 ^ 53 \<longrightarrow> formatTimeHuman (Fin x) = humanUnits (nat \<lfloor>x\<rfloor>))
   \<and> (31557600000000001048576 < x \<longrightarrow> formatTimeHuman (Fin x) = ellipsis)
   \<and> formatTimeHuman (Fin 0.5) = ''Instant''
   \<and> formatTimeHuman (Fin 90) = ''1 minute, 30 seconds''
   \<and> formatTimeHuman (Fin 3665) = ''1 hour, 1 minute, 5 seconds''
   \<and> formatTimeHuman PInf = ''Never''"
proof -
  have never: "\<not> isFinite s \<longrightarrow> formatTimeHuman s = ''Never''"
    by (simp add: formatTimeHuman_def)
  have instant: "isFinite s \<and> jlt s (Fin 1) \<longrightarrow> formatTimeHuman s = ''Instant''"
    by (simp add: formatTimeHuman_def)
  have units: "1 \<le> x \<and> x < 2 ^ 53 \<longrightarrow> formatTimeHuman (Fin x) = humanUnits (nat \<lfloor>x\<rfloor>)"
    using formatTimeHuman_units [of x] by simp
  have dots: "31557600000000001048576 < x \<longrightarrow> formatTimeHuman (Fin x) = ellipsis"
    using formatTimeHuman_absurd [of x] by simp
  have e1: "formatTimeHuman (Fin 0.5) = ''Instant''"
    by (simp add: formatTimeHuman_def)
  have e2: "formatTimeHuman (Fin 90) = ''1 minute, 30 seconds''"
    using formatTimeHuman_units [of 90] by (simp add: time_eval)
  have e3: "formatTimeHuman (Fin 3665) = ''1 hour, 1 minute, 5 seconds''"
    using formatTimeHuman_units [of 3665] by (simp add: time_eval)
  have e4: "formatTimeHuman PInf = ''Never''"
    by (simp add: formatTimeHuman_def)
  from never instant units dots e1 e2 e3 e4 show ?thesis by blast
qed

theorem formatTimeHuman_spec_witness:
  "formatTimeHuman NaN = ''Never''
   \<and> formatTimeHuman (Fin (- 3)) = ''Instant''
   \<and> formatTimeHuman (Fin 90061.5) = ''1 day, 1 hour, 1 minute''
   \<and> formatTimeHuman (Fin 63115200) = ''2 years''
   \<and> formatTimeHuman (Fin 9007199254740991) = ''285420920 years, 344 days, 7 hours''
   \<and> formatTimeHuman (Fin 99999999999999991611392)
       = [CHR 0xC3, CHR 0xA2, CHR 0xE2, CHR 0x82, CHR 0xAC, CHR 0xC2, CHR 0xA6]"
proof -
  have h: "humanUnits (nat \<lfloor>90061.5 :: real\<rfloor>) = ''1 day, 1 hour, 1 minute''"
    "humanUnits (nat \<lfloor>63115200 :: real\<rfloor>) = ''2 years''"
    "humanUnits (nat \<lfloor>9007199254740991 :: real\<rfloor>) = ''285420920 years, 344 days, 7 hours''"
    by (simp_all add: time_eval)
  from formatTimeHuman_spec [of NaN "90061.5"] formatTimeHuman_spec [of "Fin (- 3)" 63115200]
       formatTimeHuman_spec [of NaN 9007199254740991] formatTimeHuman_spec [of NaN 99999999999999991611392] h
  show ?thesis by (simp add: ellipsis_def)
qed

section \<open>The rune processor: sorting\<close>

text \<open>
  Claim C8. With \<open>sort: 'asc'\<close> (respectively \<open>'desc'\<close>) the list \<open>processRunes\<close> returns is
  a permutation of the filtered list, non-decreasing (respectively non-increasing) in time
  with an undefined time counting as \<open>Infinity\<close>, and entries of equal time keep their
  relative order. The rune records are those of a JSON document, whose numbers are finite.
\<close>

theorem processRunes_sorted:
  assumes fin: "\<forall>r\<in>set runes. isFinite (chanceN (chance r))"
    and order: "sort_opt opts = Some order"
  shows "mset (processRunes runes rps luck opts)
           = mset (processRunes runes rps luck (opts\<lparr>sort_opt := None\<rparr>))
       \<and> (if order = asc then nonDecreasingTime (processRunes runes rps luck opts)
          else nonIncreasingTime (processRunes runes rps luck opts))
       \<and> filter (\<lambda>r. timeOrInfinity r = t) (processRunes runes rps luck opts)
           = filter (\<lambda>r. timeOrInfinity r = t) (processRunes runes rps luck (opts\<lparr>sort_opt := None\<rparr>))"
proof -
  let ?F = "processRunes runes rps luck (opts\<lparr>sort_opt := None\<rparr>)"
  let ?G = "\<lambda>a b. if order = asc then jlt (timeOrInfinity b) (timeOrInfinity a)
                   else jlt (timeOrInfinity a) (timeOrInfinity b)"
  have form: "processRunes runes rps luck opts = array_sort (compareTime order) ?F"
    by (rule processRunes_with_sort [OF order])
  have sub: "set ?F \<subseteq> processOne rps luck ` set runes"
    by (rule set_processRunes_unsorted)
  have perm: "mset (array_sort (compareTime order) ?F) = mset ?F"
    by (rule mset_array_sort)
  have stable: "filter (\<lambda>r. timeOrInfinity r = t) (array_sort (compareTime order) ?F)
                  = filter (\<lambda>r. timeOrInfinity r = t) ?F"
  proof (rule filter_array_sort)
    fix x y assume "timeOrInfinity x = t" "jgt (compareTime order x y) (Fin 0)"
    then show "timeOrInfinity y \<noteq> t"
      using jlt_irrefl [of t] by (auto simp: compareTime_gt split: if_splits)
  qed
  have sorted: "sorted_wrt (\<lambda>a b. \<not> ?G a b) (array_sort (compareTime order) ?F)"
  proof (rule sorted_wrt_array_sort [where G = ?G])
    fix a b show "jgt (compareTime order a b) (Fin 0) = ?G a b" by (rule compareTime_gt)
  next
    fix x y assume "?G x y"
    then show "\<not> ?G y x" by (auto dest: jlt_asym split: if_splits)
  next
    fix x y z assume x: "x \<in> set ?F" and y: "y \<in> set ?F" and z: "z \<in> set ?F"
      and xy: "\<not> ?G x y" and yz: "\<not> ?G y z"
    from x y z sub have mem: "x \<in> processOne rps luck ` set runes"
      "y \<in> processOne rps luck ` set runes" "z \<in> processOne rps luck ` set runes" by auto
    show "\<not> ?G x z"
    proof (cases "isNaN (timeOrInfinity y)")
      case False
      show ?thesis
      proof (cases "order = asc")
        case True
        with xy yz jlt_neg_trans [where y = "timeOrInfinity y" and x = "timeOrInfinity x" and z = "timeOrInfinity z", OF False]
        show ?thesis by simp
      next
        case d: False
        with xy yz jlt_neg_trans [where y = "timeOrInfinity y" and x = "timeOrInfinity z" and z = "timeOrInfinity x", OF False]
        show ?thesis by simp
      qed
    next
      case True
      with times_coherent [OF fin, of rps luck] mem(2)
      have "\<forall>p\<in>processOne rps luck ` set runes. \<forall>q\<in>processOne rps luck ` set runes.
              \<not> jlt (timeOrInfinity p) (timeOrInfinity q)" by blast
      with mem(1,3) have "\<not> jlt (timeOrInfinity x) (timeOrInfinity z)"
        "\<not> jlt (timeOrInfinity z) (timeOrInfinity x)" by blast+
      then show ?thesis by simp
    qed
  qed
  from sorted have "if order = asc then nonDecreasingTime (array_sort (compareTime order) ?F)
                    else nonIncreasingTime (array_sort (compareTime order) ?F)"
    by (cases "order = asc") (simp_all add: nonDecreasingTime_def nonIncreasingTime_def)
  with perm stable show ?thesis unfolding form by simp
qed

theorem processRunes_sorted_witness:
  "list_all (\<lambda>r. isFinite (chanceN (chance r))) testRunes
   \<and> map rune_id (processRunes testRunes (Fin 1) (Fin 1)
         \<lparr>text_opt = None, hideInstant = None, sort_opt = Some desc\<rparr>) = [''slow'', ''fast'']
   \<and> nonIncreasingTime (processRunes testRunes (Fin 1) (Fin 1)
         \<lparr>text_opt = None, hideInstant = None, sort_opt = Some desc\<rparr>)
   \<and> nonDecreasingTime (processRunes testRunes (Fin 1) (Fin 1)
         \<lparr>text_opt = None, hideInstant = None, sort_opt = Some asc\<rparr>)"
proof -
  have fin: "\<forall>r\<in>set testRunes. isFinite (chanceN (chance r))"
    by (simp add: testRunes_def testRune_def)
  have ids: "map rune_id (processRunes testRunes (Fin 1) (Fin 1)
         \<lparr>text_opt = None, hideInstant = None, sort_opt = Some desc\<rparr>) = [''slow'', ''fast'']"
    by (simp add: rune_eval num_eval)
  from processRunes_sorted [OF fin, of "\<lparr>text_opt = None, hideInstant = None, sort_opt = Some desc\<rparr>" desc
         "Fin 1" "Fin 1"]
       processRunes_sorted [OF fin, of "\<lparr>text_opt = None, hideInstant = None, sort_opt = Some asc\<rparr>" asc
         "Fin 1" "Fin 1"]
       fin ids
  show ?thesis by (simp add: list_all_iff)
qed


section \<open>The rune processor: the derived time\<close>

text \<open>
  Claim C9 says that a rune whose time is not computable (rate \<open>\<le> 0\<close>, luck \<open>\<le> 0\<close> or
  \<open>chance.n \<le> 0\<close>) gets an omitted time. With rate \<open>0\<close> the two test runes both get the
  time \<open>Infinity\<close>, a defined value.
\<close>

theorem processRunes_time_undefined_counterexample:
  "jle (Fin 0) (Fin 0)
   \<and> map time (processRunes testRunes (Fin 0) (Fin 1)
         \<lparr>text_opt = None, hideInstant = None, sort_opt = None\<rparr>) = [Some PInf, Some PInf]"
  by (simp add: rune_eval)


text \<open>
  Claim C9, amended. Every entry \<open>processRunes\<close> returns has a defined time, and for a
  rune whose time is not computable that time is \<open>Infinity\<close>.
\<close>

theorem processRunes_time_never_undefined:
  assumes "p \<in> set (processRunes runes rps luck opts)"
  shows "time p \<noteq> None
       \<and> (jle rps (Fin 0) \<or> jle luck (Fin 0) \<or> jle (chanceN (chance p)) (Fin 0)
            \<longrightarrow> time p = Some PInf)"
proof -
  from assms set_processRunes obtain r where "p = processOne rps luck r" by blast
  then show ?thesis by (simp add: timeSeconds_def)
qed

theorem processRunes_time_never_undefined_witness:
  "map time (processRunes testRunes (Fin (- 1)) (Fin 1)
       \<lparr>text_opt = None, hideInstant = None, sort_opt = None\<rparr>) = [Some PInf, Some PInf]"
proof -
  let ?out = "processRunes testRunes (Fin (- 1)) (Fin 1)
       \<lparr>text_opt = None, hideInstant = None, sort_opt = None\<rparr>"
  have out: "?out = map (processOne (Fin (- 1)) (Fin 1)) testRunes"
    by (simp add: rune_eval)
  have "\<forall>p\<in>set ?out. time p = Some PInf"
    using processRunes_time_never_undefined [of _ testRunes "Fin (- 1)" "Fin 1"
      "\<lparr>text_opt = None, hideInstant = None, sort_opt = None\<rparr>"]
    by simp
  then show ?thesis unfolding out by (simp add: testRunes_def)
qed


section \<open>The parser: the value is finite\<close>

text \<open>
  Claim C10. Whatever the input and the scale table, \<open>parseScaled\<close> returns, and the value
  it returns is a finite number, neither \<open>NaN\<close> nor an infinity. Whenever \<open>parseScaled\<close>
  returns for a \<open>ScaleUtils\<close> of any origin, the value is finite as well.
\<close>

theorem parseScaled_value_finite:
  "(\<exists>r. parseScaled input (buildScaleUtils scales) = Inr r
        \<and> isFinite (value r) \<and> \<not> isNaN (value r))
   \<and> (\<forall>r. parseScaled input su = Inr r \<longrightarrow> isFinite (value r) \<and> \<not> isNaN (value r))"
  using parseScaled_built_returns [of input scales] parseScaled_finite isFinite_not_NaN
  by blast

theorem parseScaled_value_finite_witness:
  "parseScaled ''1.5k'' (buildScaleUtils testScales)
     = Inr \<lparr>value = Fin 1500, warning = Some (ambiguousWarning ''k'' [''K''])\<rparr>
   \<and> isFinite (Fin 1500)"
proof -
  have "parseScaled ''1.5k'' (buildScaleUtils testScales)
     = Inr \<lparr>value = Fin 1500, warning = Some (ambiguousWarning ''k'' [''K''])\<rparr>"
    by (simp add: parseScaled_def str_eval parse_eval num_eval table_eval Let_def
        split: prod.splits)
  with parseScaled_value_finite [of "''1.5k''" testScales "buildScaleUtils testScales"]
  show ?thesis by simp
qed


end
